theory Spec2Isabelle
  imports Complex_Main "HOL-Library.Sublist" "HOL-Library.Multiset"
begin

text \<open>
  A verification of \<open>train/sunrgbd_eval/eval_det.py\<close>: the AP integrator \<open>voc_ap\<close>, the
  per-class evaluator \<open>eval_det_cls\<close> and the loop over the classes of \<open>eval_det\<close>.
  Plotting and logging are left out.

  Conventions of the embedding.
  \<^item> A finite \<open>float64\<close> is a real number, and an arithmetic operation on \<open>float64\<close> is the
    operation on the reals followed by rounding to binary64 (\<open>fl64\<close>). The recall array can
    hold \<open>nan\<close> and the infinities, so its entries, and the AP, are of the type \<open>float64\<close>
    below, which adds these three values. Overflow is not modelled.
  \<^item> The counts the evaluator adds up (\<open>npos\<close>, the entries of \<open>np.cumsum(tp)\<close> and of
    \<open>tp + fp\<close>) are whole numbers that binary64 holds exactly, and are added without
    rounding.
  \<^item> A dictionary whose keys are iterated is an association list in insertion order (its keys
    are distinct); \<open>class_recs\<close>, which is only looked up, is a map.
  \<^item> The lists the two input dictionaries refer to, and the arrays and lists the evaluator
    builds from them, are objects of an explicit store, so that what a call writes can be
    told apart from what it was given.
  \<^item> \<open>np.argsort\<close>, \<open>np.sum\<close> on an array of floats, and the IoU function \<open>get_iou_cc\<close>
    are not code of this file: they are parameters.
\<close>

section \<open>Outcomes\<close>

text \<open>
  The exceptions a call can end with. \<open>TypeError\<close> stands for every failure on an input that
  is not of the documented shape (an address that holds no object, or an object of another
  kind).
\<close>

datatype error = KeyError | IndexError | NameError | ValueError | TypeError

section \<open>IEEE binary64 arithmetic\<close>

text \<open>
  \<open>fl64\<close> rounds a real number to the nearest binary64 number, ties to the even
  significand: with \<open>e\<close> the exponent of \<open>x\<close>, not below \<open>-1022\<close> (the subnormal numbers
  share the spacing of the smallest normal ones), the result is the multiple of
  \<open>2 powi (e - 52)\<close> nearest to \<open>x\<close>. The exponent is searched from \<open>0\<close> upwards or
  downwards. Overflow to infinity, beyond \<open>2 powi 1024\<close>, is not modelled. An arithmetic
  operation of binary64 is the exact operation followed by \<open>fl64\<close>.
\<close>

definition round_even :: "real \<Rightarrow> int" where
  "round_even y =
     (let q = \<lfloor>y\<rfloor>; f = y - of_int q
      in if f < 1/2 then q else if 1/2 < f then q + 1 else if even q then q else q + 1)"

fun exponent_up :: "nat \<Rightarrow> real \<Rightarrow> int \<Rightarrow> int" where
  "exponent_up 0 x e = e"
| "exponent_up (Suc n) x e = (if x < 2 powi (e + 1) then e else exponent_up n x (e + 1))"

fun exponent_down :: "nat \<Rightarrow> real \<Rightarrow> int \<Rightarrow> int" where
  "exponent_down 0 x e = e"
| "exponent_down (Suc n) x e = (if 2 powi e \<le> x then e else exponent_down n x (e - 1))"

definition exponent64 :: "real \<Rightarrow> int" where
  "exponent64 x = (if 1 \<le> x then exponent_up 1023 x 0 else exponent_down 1022 x 0)"

definition fl64 :: "real \<Rightarrow> real" where
  "fl64 x =
     (if x = 0 then 0
      else let u = 2 powi (exponent64 \<bar>x\<bar> - 52)
           in sgn x * of_int (round_even (\<bar>x\<bar> / u)) * u)"

definition fadd :: "real \<Rightarrow> real \<Rightarrow> real" where
  "fadd x y = fl64 (x + y)"

definition fsub :: "real \<Rightarrow> real \<Rightarrow> real" where
  "fsub x y = fl64 (x - y)"

definition fmul :: "real \<Rightarrow> real \<Rightarrow> real" where
  "fmul x y = fl64 (x * y)"

definition fdiv :: "real \<Rightarrow> real \<Rightarrow> real" where
  "fdiv x y = fl64 (x / y)"

text \<open>
  The values of a \<open>float64\<close>: a number, the two infinities and \<open>nan\<close>. The evaluator
  produces the last three in one place, \<open>tp / float(npos)\<close> with \<open>npos = 0\<close>: NumPy
  divides by zero with a warning and no exception, and gives \<open>nan\<close> for \<open>0 / 0\<close> and an
  infinity with the sign of \<open>x\<close> for \<open>x / 0\<close> (\<open>div64\<close>). The operations \<open>voc_ap\<close>
  applies to the recall array follow IEEE 754 on these values: a comparison \<open>r >= t\<close> with
  a number \<open>t\<close> (\<open>ge64\<close>), where \<open>nan\<close> compares false; \<open>!=\<close> (\<open>ne64\<close>), where \<open>nan\<close>
  differs from everything, itself included; the difference of two values (\<open>sub64\<close>); and
  the product with a number (\<open>mul64\<close>).
\<close>

datatype float64 = Num real | PInf | MInf | NaN

definition div64 :: "real \<Rightarrow> real \<Rightarrow> float64" where
  "div64 x y =
     (if y \<noteq> 0 then Num (fdiv x y)
      else if x = 0 then NaN else if 0 < x then PInf else MInf)"

fun ge64 :: "float64 \<Rightarrow> real \<Rightarrow> bool" where
  "ge64 (Num x) t = (t \<le> x)"
| "ge64 PInf t = True"
| "ge64 MInf t = False"
| "ge64 NaN t = False"

definition ne64 :: "float64 \<Rightarrow> float64 \<Rightarrow> bool" where
  "ne64 a b \<longleftrightarrow> a = NaN \<or> b = NaN \<or> a \<noteq> b"

fun sub64 :: "float64 \<Rightarrow> float64 \<Rightarrow> float64" where
  "sub64 (Num x) (Num y) = Num (fsub x y)"
| "sub64 NaN b = NaN"
| "sub64 a NaN = NaN"
| "sub64 PInf PInf = NaN"
| "sub64 MInf MInf = NaN"
| "sub64 PInf b = PInf"
| "sub64 MInf b = MInf"
| "sub64 (Num x) PInf = MInf"
| "sub64 (Num x) MInf = PInf"

fun mul64 :: "float64 \<Rightarrow> real \<Rightarrow> float64" where
  "mul64 (Num x) p = Num (fmul x p)"
| "mul64 NaN p = NaN"
| "mul64 PInf p = (if p = 0 then NaN else if 0 < p then PInf else MInf)"
| "mul64 MInf p = (if p = 0 then NaN else if 0 < p then MInf else PInf)"

text \<open>
  \<open>np.sum\<close> of an array of floats. On numbers it is the parameter \<open>np_sum\<close>: NumPy adds
  the entries in an order of its own (in blocks and pairwise), each addition rounded. Once
  \<open>nan\<close> or an infinity is among the entries the order does not matter: the sum is \<open>nan\<close>
  if a \<open>nan\<close> or both infinities occur, and the infinity that occurs otherwise.
\<close>

definition nums :: "float64 list \<Rightarrow> real list" where
  "nums xs = concat (map (\<lambda>v. case v of Num x \<Rightarrow> [x] | _ \<Rightarrow> []) xs)"

definition sum64 :: "(real list \<Rightarrow> real) \<Rightarrow> float64 list \<Rightarrow> float64" where
  "sum64 np_sum xs =
     (if NaN \<in> set xs \<or> (PInf \<in> set xs \<and> MInf \<in> set xs) then NaN
      else if PInf \<in> set xs then PInf
      else if MInf \<in> set xs then MInf
      else Num (np_sum (nums xs)))"

text \<open>
  The contract of \<open>np.sum\<close>: on binary64 numbers, the result is obtained from the entries
  by rounded additions of two operands, in some order and grouping (\<open>rsum\<close>; the sum of no
  entry is \<open>0\<close>). \<open>np_sum_seq\<close>, which adds from left to right starting from \<open>0.\<close>, is one
  function that meets it; it is the order NumPy uses on fewer than eight entries.
  \<open>np_sum_pairwise\<close> is another: the first eight entries are added as
  \<open>((a0 + a1) + (a2 + a3)) + ((a4 + a5) + (a6 + a7))\<close> and the following ones one by one,
  which is the order of NumPy's pairwise summation on eight to fifteen entries.
\<close>

definition binary64 :: "real \<Rightarrow> bool" where
  "binary64 x \<longleftrightarrow> fl64 x = x"

inductive rsum :: "real multiset \<Rightarrow> real \<Rightarrow> bool" where
  rsum_empty: "rsum {#} 0"
| rsum_single: "rsum {#x#} x"
| rsum_add: "rsum A a \<Longrightarrow> rsum B b \<Longrightarrow> rsum (A + B) (fadd a b)"

definition np_sum_ok :: "(real list \<Rightarrow> real) \<Rightarrow> bool" where
  "np_sum_ok np_sum \<longleftrightarrow> (\<forall>xs. (\<forall>x\<in>set xs. binary64 x) \<longrightarrow> rsum (mset xs) (np_sum xs))"

definition np_sum_seq :: "real list \<Rightarrow> real" where
  "np_sum_seq xs = foldl fadd 0 xs"

definition np_sum_pairwise :: "real list \<Rightarrow> real" where
  "np_sum_pairwise xs =
     (case xs of
        a0 # a1 # a2 # a3 # a4 # a5 # a6 # a7 # ys \<Rightarrow>
          foldl fadd
            (fadd (fadd (fadd a0 a1) (fadd a2 a3)) (fadd (fadd a4 a5) (fadd a6 a7))) ys
      | _ \<Rightarrow> foldl fadd 0 xs)"

section \<open>The AP integrator: voc_ap\<close>

text \<open>
  \<open>np.arange\<close> on \<open>float64\<close> arguments, as NumPy computes it: the length is the ceiling of
  \<open>(stop - start) / step\<close>, the first two entries are \<open>start\<close> and \<open>start + step\<close>, and
  entry \<open>i\<close> is \<open>start + i * delta\<close> with \<open>delta\<close> the difference of the first two.
\<close>

definition arange64 :: "real \<Rightarrow> real \<Rightarrow> real \<Rightarrow> real list" where
  "arange64 start stop step =
     (let n = nat \<lceil>fdiv (fsub stop start) step\<rceil>;
          next = fadd start step;
          delta = fsub next start
      in map (\<lambda>i. if i = 0 then start else if i = 1 then next
                    else fadd start (fmul (real i) delta)) [0..<n])"

text \<open>
  The comparison \<open>rec >= t\<close> gives a boolean array, \<open>np.sum\<close> counts its true entries,
  \<open>prec[rec >= t]\<close> selects by it (an \<open>IndexError\<close> when the lengths differ) and \<open>np.max\<close>
  fails on an empty selection.
\<close>

definition ge_mask :: "float64 list \<Rightarrow> real \<Rightarrow> bool list" where
  "ge_mask rec t = map (\<lambda>r. ge64 r t) rec"

definition np_sum_mask :: "bool list \<Rightarrow> nat" where
  "np_sum_mask m = length (filter (\<lambda>b. b) m)"

definition mask_select :: "real list \<Rightarrow> bool list \<Rightarrow> error + real list" where
  "mask_select prec m =
     (if length m \<noteq> length prec then Inl IndexError
      else Inr (map fst (filter snd (zip prec m))))"

definition np_max :: "real list \<Rightarrow> error + real" where
  "np_max xs = (case xs of [] \<Rightarrow> Inl ValueError | x # ys \<Rightarrow> Inr (fold max ys x))"

text \<open>
  The 11-point branch: the loop over the thresholds, \<open>ap\<close> being the accumulator. The
  literals \<open>0.\<close>, \<open>1.1\<close>, \<open>0.1\<close> and \<open>11.\<close> are binary64 numbers, and \<open>ap + p / 11.\<close> is
  a rounded division followed by a rounded addition. The comparisons and the maximum are
  exact in binary64 as they are on the reals.
\<close>

fun ap_11_point64 :: "float64 list \<Rightarrow> real list \<Rightarrow> real list \<Rightarrow> real \<Rightarrow> error + real" where
  "ap_11_point64 rec prec [] ap = Inr ap"
| "ap_11_point64 rec prec (t # ts) ap =
     (if np_sum_mask (ge_mask rec t) = 0 then ap_11_point64 rec prec ts (fadd ap (fdiv 0 11))
      else case mask_select prec (ge_mask rec t) of
             Inl e \<Rightarrow> Inl e
           | Inr sel \<Rightarrow>
               (case np_max sel of
                  Inl e \<Rightarrow> Inl e
                | Inr p \<Rightarrow> ap_11_point64 rec prec ts (fadd ap (fdiv p 11))))"

definition voc_ap_07_binary64 :: "float64 list \<Rightarrow> real list \<Rightarrow> error + real" where
  "voc_ap_07_binary64 rec prec =
     ap_11_point64 rec prec (arange64 (fl64 0) (fl64 1.1) (fl64 0.1)) 0"

text \<open>
  The exact-integral branch. The envelope loop \<open>for i in range(mpre.size - 1, 0, -1)\<close>:
  \<open>envelope k\<close> runs the iterations \<open>i = k, \<dots>, 1\<close>, each one writing \<open>mpre[i - 1]\<close>.
  \<open>changes\<close> is \<open>np.where(mrec[1:] != mrec[:-1])[0]\<close>. The differences and the products
  of the last line are rounded, and \<open>np.sum\<close> adds them up.
\<close>

fun envelope :: "nat \<Rightarrow> real list \<Rightarrow> real list" where
  "envelope 0 mpre = mpre"
| "envelope (Suc k) mpre = envelope k (mpre[k := max (mpre ! k) (mpre ! Suc k)])"

definition changes :: "float64 list \<Rightarrow> nat list" where
  "changes mrec = filter (\<lambda>i. ne64 (mrec ! Suc i) (mrec ! i)) [0..<length mrec - 1]"

definition ap_exact :: "(real list \<Rightarrow> real) \<Rightarrow> float64 list \<Rightarrow> real list \<Rightarrow> error + float64" where
  "ap_exact np_sum rec prec =
     (let mrec = [Num 0] @ rec @ [Num 1];
          mpre0 = [0] @ prec @ [0];
          mpre = envelope (length mpre0 - 1) mpre0;
          i = changes mrec
      in if list_ex (\<lambda>k. length mpre \<le> Suc k) i then Inl IndexError
         else Inr (sum64 np_sum
                (map (\<lambda>k. mul64 (sub64 (mrec ! Suc k) (mrec ! k)) (mpre ! Suc k)) i)))"

definition voc_ap ::
  "(real list \<Rightarrow> real) \<Rightarrow> float64 list \<Rightarrow> real list \<Rightarrow> bool \<Rightarrow> error + float64" where
  "voc_ap np_sum rec prec use_07_metric =
     (if use_07_metric
      then (case voc_ap_07_binary64 rec prec of Inl e \<Rightarrow> Inl e | Inr ap \<Rightarrow> Inr (Num ap))
      else ap_exact np_sum rec prec)"

text \<open>
  The sampled precision at a threshold, in the words of the specification: the largest
  precision among the indices whose recall is at least \<open>t\<close>, and \<open>0\<close> when there is none.
\<close>

definition sampled :: "float64 list \<Rightarrow> real list \<Rightarrow> real \<Rightarrow> real" where
  "sampled rec prec t =
     (if \<exists>i<length rec. ge64 (rec ! i) t
      then Max {prec ! i |i. i < length rec \<and> ge64 (rec ! i) t} else 0)"

section \<open>The store of list objects\<close>

text \<open>
  An address is an index into the store. The objects are the lists that matter to the
  evaluator: a list (or array) of boxes, a list of detections \<open>(box, score)\<close>, and a list of
  matched flags. Boxes are opaque values of type \<open>'b\<close>. Allocation appends to the store, so
  an address is never reused.
\<close>

type_synonym addr = nat

datatype 'b obj = BoxList "'b list" | DetList "('b \<times> real) list" | FlagList "bool list"

type_synonym 'b store = "'b obj list"

definition alloc :: "'b store \<Rightarrow> 'b obj \<Rightarrow> addr \<times> 'b store" where
  "alloc s v = (length s, s @ [v])"

definition load :: "'b store \<Rightarrow> addr \<Rightarrow> 'b obj option" where
  "load s a = (if a < length s then Some (s ! a) else None)"

text \<open>An entry of \<open>class_recs\<close>, with its keys \<open>bbox\<close> and \<open>det\<close>: two references.\<close>

record crec =
  bbox :: addr
  det :: addr

section \<open>The per-class evaluator: eval_det_cls\<close>

text \<open>
  The first loop: for every image of \<open>gt\<close>, \<open>np.array(gt[img_id])\<close> copies the boxes into
  a new array and \<open>[False] * len(bbox)\<close> is a new list; \<open>npos\<close> counts the boxes.
\<close>

fun construct_gt ::
  "'b store \<Rightarrow> ('i \<times> addr) list \<Rightarrow> ('i \<rightharpoonup> crec) \<Rightarrow> nat
     \<Rightarrow> 'b store \<times> (error + ('i \<rightharpoonup> crec) \<times> nat)" where
  "construct_gt s [] class_recs npos = (s, Inr (class_recs, npos))"
| "construct_gt s ((img_id, a) # gt) class_recs npos =
     (case load s a of
        Some (BoxList boxes) \<Rightarrow>
          (case alloc s (BoxList boxes) of (b, s1) \<Rightarrow>
           case alloc s1 (FlagList (replicate (length boxes) False)) of (f, s2) \<Rightarrow>
             construct_gt s2 gt (class_recs(img_id \<mapsto> \<lparr>bbox = b, det = f\<rparr>))
               (npos + length boxes))
      | _ \<Rightarrow> (s, Inl TypeError))"

text \<open>The second loop: an image with predictions and no ground truth gets empty records.\<close>

fun pad_recs ::
  "'b store \<Rightarrow> ('i \<times> addr) list \<Rightarrow> 'i list \<Rightarrow> ('i \<rightharpoonup> crec)
     \<Rightarrow> 'b store \<times> ('i \<rightharpoonup> crec)" where
  "pad_recs s gt [] class_recs = (s, class_recs)"
| "pad_recs s gt (img_id # keys) class_recs =
     (if map_of gt img_id = None then
        (case alloc s (BoxList []) of (b, s1) \<Rightarrow>
         case alloc s1 (FlagList []) of (f, s2) \<Rightarrow>
           pad_recs s2 gt keys (class_recs(img_id \<mapsto> \<lparr>bbox = b, det = f\<rparr>)))
      else pad_recs s gt keys class_recs)"

text \<open>
  The third loop flattens the predictions into \<open>image_ids\<close>, \<open>confidence\<close> and \<open>BB\<close>; it
  reads the store and writes nothing to it.
\<close>

fun construct_dets ::
  "'b store \<Rightarrow> ('i \<times> addr) list \<Rightarrow> 'i list \<times> real list \<times> 'b list
     \<Rightarrow> error + 'i list \<times> real list \<times> 'b list" where
  "construct_dets s [] acc = Inr acc"
| "construct_dets s ((img_id, a) # pred) (image_ids, confidence, BB) =
     (case load s a of
        Some (DetList ds) \<Rightarrow>
          construct_dets s pred
            (image_ids @ map (\<lambda>_. img_id) ds, confidence @ map snd ds, BB @ map fst ds)
      | _ \<Rightarrow> Inl TypeError)"


definition argsort_insertion :: "real list \<Rightarrow> nat list" where
  "argsort_insertion xs = sort_key ((!) xs) [0..<length xs]"

definition take_idx :: "'a list \<Rightarrow> nat list \<Rightarrow> error + 'a list" where
  "take_idx xs ind =
     (if list_all (\<lambda>x. x < length xs) ind then Inr (map ((!) xs) ind) else Inl IndexError)"

text \<open>
  \<open>ovmax\<close> starts at \<open>-np.inf\<close> and is a number afterwards. \<open>ovl_less ovmax iou\<close> is
  \<open>iou > ovmax\<close> and \<open>ovl_gt ovmax ovthresh\<close> is \<open>ovmax > ovthresh\<close>.
\<close>

datatype ovl = NegInf | Fin real

fun ovl_less :: "ovl \<Rightarrow> real \<Rightarrow> bool" where
  "ovl_less NegInf x = True"
| "ovl_less (Fin y) x = (y < x)"

fun ovl_gt :: "ovl \<Rightarrow> real \<Rightarrow> bool" where
  "ovl_gt NegInf t = False"
| "ovl_gt (Fin y) t = (t < y)"

text \<open>
  The scan \<open>for j in range(BBGT.shape[0])\<close> over the ground-truth boxes of the image;
  \<open>jmax\<close> is \<open>None\<close> while the variable is unbound, and it keeps its value from one
  detection to the next, as a Python variable does.
\<close>

fun overlaps ::
  "('b \<Rightarrow> 'b \<Rightarrow> real) \<Rightarrow> 'b \<Rightarrow> 'b list \<Rightarrow> nat \<Rightarrow> ovl \<times> nat option \<Rightarrow> ovl \<times> nat option" where
  "overlaps get_iou_cc bb [] j st = st"
| "overlaps get_iou_cc bb (g # BBGT) j (ovmax, jmax) =
     (let iou = get_iou_cc bb g in
      if ovl_less ovmax iou then overlaps get_iou_cc bb BBGT (Suc j) (Fin iou, Some j)
      else overlaps get_iou_cc bb BBGT (Suc j) (ovmax, jmax))"

text \<open>
  The body of the loop over the detections, on the two objects of the record \<open>R\<close>:
  \<open>R_bbox\<close> is what \<open>R['bbox']\<close> refers to and \<open>R_det\<close> what \<open>R['det']\<close> refers to. The
  first component of the result is the new contents of \<open>R['det']\<close> when the body writes
  \<open>R['det'][jmax] = 1\<close>, the second the arrays \<open>tp\<close> and \<open>fp\<close> with \<open>jmax\<close>, or the
  exception. \<open>mark_det\<close> looks the record up and carries out the write in the store;
  \<open>mark_all\<close> is the loop \<open>for d in range(nd)\<close>.
\<close>

definition match_det ::
  "('b \<Rightarrow> 'b \<Rightarrow> real) \<Rightarrow> real \<Rightarrow> nat \<Rightarrow> 'b \<Rightarrow> 'b obj option \<Rightarrow> 'b obj option
     \<Rightarrow> real list \<times> real list \<times> nat option
     \<Rightarrow> bool list option \<times> (error + real list \<times> real list \<times> nat option)" where
  "match_det get_iou_cc ovthresh d bb R_bbox R_det st =
     (case st of (tp, fp, jmax0) \<Rightarrow>
      case R_bbox of
        Some (BoxList BBGT) \<Rightarrow>
          (case (if BBGT \<noteq> [] then overlaps get_iou_cc bb BBGT 0 (NegInf, jmax0)
                 else (NegInf, jmax0)) of
             (ovmax, jmax) \<Rightarrow>
               if ovl_gt ovmax ovthresh then
                 (case jmax of
                    None \<Rightarrow> (None, Inl NameError)
                  | Some j \<Rightarrow>
                      (case R_det of
                         Some (FlagList flags) \<Rightarrow>
                           if j < length flags then
                             (if \<not> flags ! j
                              then (Some (flags[j := True]), Inr (tp[d := 1], fp, jmax))
                              else (None, Inr (tp, fp[d := 1], jmax)))
                           else (None, Inl IndexError)
                       | _ \<Rightarrow> (None, Inl TypeError)))
               else (None, Inr (tp, fp[d := 1], jmax)))
      | _ \<Rightarrow> (None, Inl TypeError))"

definition mark_det ::
  "('b \<Rightarrow> 'b \<Rightarrow> real) \<Rightarrow> ('i \<rightharpoonup> crec) \<Rightarrow> real \<Rightarrow> nat \<Rightarrow> 'i \<Rightarrow> 'b
     \<Rightarrow> 'b store \<times> real list \<times> real list \<times> nat option
     \<Rightarrow> 'b store \<times> (error + real list \<times> real list \<times> nat option)" where
  "mark_det get_iou_cc class_recs ovthresh d img_id bb st =
     (case st of (s, loc) \<Rightarrow>
      case class_recs img_id of
        None \<Rightarrow> (s, Inl KeyError)
      | Some R \<Rightarrow>
          (case match_det get_iou_cc ovthresh d bb (load s (bbox R)) (load s (det R)) loc of
             (None, r) \<Rightarrow> (s, r)
           | (Some flags, r) \<Rightarrow> (s[det R := FlagList flags], r)))"

fun mark_all ::
  "('b \<Rightarrow> 'b \<Rightarrow> real) \<Rightarrow> ('i \<rightharpoonup> crec) \<Rightarrow> real \<Rightarrow> ('i \<times> 'b) list \<Rightarrow> nat
     \<Rightarrow> 'b store \<times> real list \<times> real list \<times> nat option
     \<Rightarrow> 'b store \<times> (error + real list \<times> real list)" where
  "mark_all get_iou_cc class_recs ovthresh [] d (s, tp, fp, jmax) = (s, Inr (tp, fp))"
| "mark_all get_iou_cc class_recs ovthresh ((img_id, bb) # dets) d st =
     (case mark_det get_iou_cc class_recs ovthresh d img_id bb st of
        (s', Inl e) \<Rightarrow> (s', Inl e)
      | (s', Inr loc) \<Rightarrow> mark_all get_iou_cc class_recs ovthresh dets (Suc d) (s', loc))"

text \<open>
  \<open>np.cumsum\<close>, machine epsilon \<open>np.finfo(np.float64).eps\<close>, and the curves: recall
  \<open>tp / float(npos)\<close>, precision \<open>tp / np.maximum(tp + fp, eps)\<close> and the AP. The two
  quotients are rounded; the recall is \<open>nan\<close> or infinite when \<open>npos\<close> is \<open>0\<close>.
\<close>

fun cumsum_from :: "real \<Rightarrow> real list \<Rightarrow> real list" where
  "cumsum_from acc [] = []"
| "cumsum_from acc (x # xs) = (acc + x) # cumsum_from (acc + x) xs"

definition cumsum :: "real list \<Rightarrow> real list" where
  "cumsum xs = cumsum_from 0 xs"

definition eps :: real where
  "eps = 1 / 2 ^ 52"

definition precision :: "real list \<Rightarrow> real list \<Rightarrow> real list" where
  "precision tp fp = map (\<lambda>(t, f). fdiv t (max (t + f) eps)) (zip tp fp)"

definition pr_curves ::
  "(real list \<Rightarrow> real) \<Rightarrow> real list \<Rightarrow> real list \<Rightarrow> nat \<Rightarrow> bool
     \<Rightarrow> error + float64 list \<times> real list \<times> float64" where
  "pr_curves np_sum tp0 fp0 npos use_07_metric =
     (let fp = cumsum fp0;
          tp = cumsum tp0;
          rec = map (\<lambda>t. div64 t (real npos)) tp;
          prec = precision tp fp
      in case voc_ap np_sum rec prec use_07_metric of
           Inl e \<Rightarrow> Inl e
         | Inr ap \<Rightarrow> Inr (rec, prec, ap))"

text \<open>
  The evaluator up to the end of the matching loop (lines 103 to 159), with the values its
  local variables \<open>image_ids\<close>, \<open>BB\<close>, \<open>tp\<close>, \<open>fp\<close> and \<open>npos\<close> have there:
  \<open>image_ids\<close> and \<open>BB\<close> hold the detections in the order in which the loop went through
  them, and \<open>tp\<close> and \<open>fp\<close> their marks.
\<close>

definition match_pass ::
  "(real list \<Rightarrow> nat list) \<Rightarrow> ('b \<Rightarrow> 'b \<Rightarrow> real) \<Rightarrow> 'b store
     \<Rightarrow> ('i \<times> addr) list \<Rightarrow> ('i \<times> addr) list \<Rightarrow> real
     \<Rightarrow> 'b store \<times> (error + 'i list \<times> 'b list \<times> real list \<times> real list \<times> nat)" where
  "match_pass argsort get_iou_cc s pred gt ovthresh =
     (case construct_gt s gt Map.empty 0 of
        (s1, Inl e) \<Rightarrow> (s1, Inl e)
      | (s1, Inr (recs0, npos)) \<Rightarrow>
          (case pad_recs s1 gt (map fst pred) recs0 of
             (s2, class_recs) \<Rightarrow>
               (case construct_dets s2 pred ([], [], []) of
                  Inl e \<Rightarrow> (s2, Inl e)
                | Inr (image_ids0, confidence, BB0) \<Rightarrow>
                    (let sorted_ind = argsort (map uminus confidence) in
                     case take_idx BB0 sorted_ind of
                       Inl e \<Rightarrow> (s2, Inl e)
                     | Inr BB \<Rightarrow>
                         (case take_idx image_ids0 sorted_ind of
                            Inl e \<Rightarrow> (s2, Inl e)
                          | Inr image_ids \<Rightarrow>
                              (let nd = length image_ids in
                               case mark_all get_iou_cc class_recs ovthresh (zip image_ids BB) 0
                                      (s2, replicate nd 0, replicate nd 0, None) of
                                 (s3, Inl e) \<Rightarrow> (s3, Inl e)
                               | (s3, Inr (tp, fp)) \<Rightarrow>
                                   (s3, Inr (image_ids, BB, tp, fp, npos))))))))"

text \<open>The evaluator: the matching pass, then the curves (lines 161 to 169).\<close>

definition eval_det_cls ::
  "(real list \<Rightarrow> real) \<Rightarrow> (real list \<Rightarrow> nat list) \<Rightarrow> ('b \<Rightarrow> 'b \<Rightarrow> real) \<Rightarrow> 'b store
     \<Rightarrow> ('i \<times> addr) list \<Rightarrow> ('i \<times> addr) list \<Rightarrow> real \<Rightarrow> bool
     \<Rightarrow> 'b store \<times> (error + float64 list \<times> real list \<times> float64)" where
  "eval_det_cls np_sum argsort get_iou_cc s pred gt ovthresh use_07_metric =
     (case match_pass argsort get_iou_cc s pred gt ovthresh of
        (s3, Inl e) \<Rightarrow> (s3, Inl e)
      | (s3, Inr (image_ids, BB, tp, fp, npos)) \<Rightarrow>
          (s3, pr_curves np_sum tp fp npos use_07_metric))"

section \<open>The multi-class driver: eval_det\<close>

text \<open>
  The loop \<open>for classname in gt_all.keys()\<close>. \<open>pred_all[classname]\<close> is evaluated before
  the call and raises \<open>KeyError\<close> for a class without an entry. \<open>eval_det\<close> is the loop and
  the three dictionaries it returns; the statements between the loop and the \<open>return\<close>,
  which write the curves to \<open>result_dir\<close> and log the APs, change none of the three and are
  not part of the model (they need a \<open>result_dir\<close> that is a path).
\<close>

fun eval_det_loop ::
  "(real list \<Rightarrow> real) \<Rightarrow> (real list \<Rightarrow> nat list) \<Rightarrow> ('b \<Rightarrow> 'b \<Rightarrow> real) \<Rightarrow> 'b store
     \<Rightarrow> ('c \<times> ('i \<times> addr) list) list \<Rightarrow> ('c \<times> ('i \<times> addr) list) list \<Rightarrow> real \<Rightarrow> bool
     \<Rightarrow> ('c \<rightharpoonup> float64 list) \<times> ('c \<rightharpoonup> real list) \<times> ('c \<rightharpoonup> float64)
     \<Rightarrow> 'b store
         \<times> (error + ('c \<rightharpoonup> float64 list) \<times> ('c \<rightharpoonup> real list) \<times> ('c \<rightharpoonup> float64))" where
  "eval_det_loop np_sum argsort get_iou_cc s pred_all [] ovthresh use_07_metric acc
     = (s, Inr acc)"
| "eval_det_loop np_sum argsort get_iou_cc s pred_all ((classname, gt) # gt_all) ovthresh
       use_07_metric (rec, prec, ap) =
     (case map_of pred_all classname of
        None \<Rightarrow> (s, Inl KeyError)
      | Some pred \<Rightarrow>
          (case eval_det_cls np_sum argsort get_iou_cc s pred gt ovthresh use_07_metric of
             (s', Inl e) \<Rightarrow> (s', Inl e)
           | (s', Inr (r, p, a)) \<Rightarrow>
               eval_det_loop np_sum argsort get_iou_cc s' pred_all gt_all ovthresh use_07_metric
                 (rec(classname \<mapsto> r), prec(classname \<mapsto> p), ap(classname \<mapsto> a))))"

definition eval_det ::
  "(real list \<Rightarrow> real) \<Rightarrow> (real list \<Rightarrow> nat list) \<Rightarrow> ('b \<Rightarrow> 'b \<Rightarrow> real) \<Rightarrow> 'b store
     \<Rightarrow> ('c \<times> ('i \<times> addr) list) list \<Rightarrow> ('c \<times> ('i \<times> addr) list) list \<Rightarrow> real \<Rightarrow> bool
     \<Rightarrow> 'b store
         \<times> (error + ('c \<rightharpoonup> float64 list) \<times> ('c \<rightharpoonup> real list) \<times> ('c \<rightharpoonup> float64))" where
  "eval_det np_sum argsort get_iou_cc s pred_all gt_all ovthresh use_07_metric =
     eval_det_loop np_sum argsort get_iou_cc s pred_all gt_all ovthresh use_07_metric
       (Map.empty, Map.empty, Map.empty)"

section \<open>Auxiliary notions for the proofs\<close>

text \<open>
  \<open>marked\<close>: index \<open>i\<close> is a true positive or a false positive, not both. \<open>view\<close>: the
  contents of the records, without their addresses. \<open>recs_ok\<close>: the records refer to
  objects of the store, and no flag list is shared with another record or with an array of
  boxes. \<open>fresh_recs n\<close>: every flag list lies at an address from \<open>n\<close> on. \<open>agree\<close>: two
  stores hold the same objects at the addresses of a dictionary.
\<close>

definition marked :: "real list \<Rightarrow> real list \<Rightarrow> nat \<Rightarrow> bool" where
  "marked tp fp i \<longleftrightarrow> tp ! i = 1 \<and> fp ! i = 0 \<or> tp ! i = 0 \<and> fp ! i = 1"

definition view ::
  "'b store \<Rightarrow> ('i \<rightharpoonup> crec) \<Rightarrow> 'i \<Rightarrow> ('b obj option \<times> 'b obj option) option" where
  "view s class_recs = (\<lambda>i. map_option (\<lambda>R. (load s (bbox R), load s (det R))) (class_recs i))"

definition recs_ok :: "'b store \<Rightarrow> ('i \<rightharpoonup> crec) \<Rightarrow> bool" where
  "recs_ok s class_recs \<longleftrightarrow>
     (\<forall>i R. class_recs i = Some R \<longrightarrow>
        bbox R < length s \<and> det R < length s
        \<and> (\<forall>j R'. class_recs j = Some R' \<longrightarrow> det R \<noteq> bbox R' \<and> (i \<noteq> j \<longrightarrow> det R \<noteq> det R')))"

definition fresh_recs :: "nat \<Rightarrow> ('i \<rightharpoonup> crec) \<Rightarrow> bool" where
  "fresh_recs n class_recs \<longleftrightarrow> (\<forall>i R. class_recs i = Some R \<longrightarrow> n \<le> det R)"

definition agree :: "'b store \<Rightarrow> 'b store \<Rightarrow> ('i \<times> addr) list \<Rightarrow> bool" where
  "agree s1 s2 m \<longleftrightarrow> (\<forall>a\<in>snd ` set m. a < length s1 \<and> a < length s2 \<and> s1 ! a = s2 ! a)"




section \<open>Properties of the AP integrator\<close>

subsection \<open>Evaluating binary64 arithmetic\<close>

lemma exponent_up_numeral:
  "exponent_up (numeral k) x e =
     (if x < 2 powi (e + 1) then e else exponent_up (pred_numeral k) x (e + 1))"
  by (simp add: numeral_eq_Suc)

lemma exponent_down_numeral:
  "exponent_down (numeral k) x e =
     (if 2 powi e \<le> x then e else exponent_down (pred_numeral k) x (e - 1))"
  by (simp add: numeral_eq_Suc)

lemmas fl64_eval = fl64_def exponent64_def exponent_up_numeral exponent_down_numeral
  round_even_def Let_def

lemma fl64_literals:
  "fl64 0 = 0" "fl64 1 = 1" "fl64 11 = 11"
  "fl64 0.1 = 3602879701896397 / 36028797018963968"
  "fl64 1.1 = 2476979795053773 / 2251799813685248"
  "fl64 (3/10) = 5404319552844595 / 18014398509481984"
  by (simp_all add: fl64_eval)

lemma thresholds64:
  "arange64 (fl64 0) (fl64 1.1) (fl64 0.1) =
     [0, 3602879701896397 / 36028797018963968, 3602879701896397 / 18014398509481984,
      1351079888211149 / 4503599627370496, 3602879701896397 / 9007199254740992, 1 / 2,
      1351079888211149 / 2251799813685248, 6305039478318695 / 9007199254740992,
      3602879701896397 / 4503599627370496, 8106479329266893 / 9007199254740992, 1]"
proof -
  have n: "fdiv (fsub (2476979795053773 / 2251799813685248) 0)
             (3602879701896397 / 36028797018963968) = 11"
    by (simp add: fdiv_def fsub_def fl64_eval)
  have d: "fadd 0 (3602879701896397 / 36028797018963968) = 3602879701896397 / 36028797018963968"
    "fsub (3602879701896397 / 36028797018963968) 0 = 3602879701896397 / 36028797018963968"
    by (simp_all add: fadd_def fsub_def fl64_eval)
  have m: "fmul 2 (3602879701896397 / 36028797018963968) = 3602879701896397 / 18014398509481984"
    "fmul 3 (3602879701896397 / 36028797018963968) = 1351079888211149 / 4503599627370496"
    "fmul 4 (3602879701896397 / 36028797018963968) = 3602879701896397 / 9007199254740992"
    "fmul 5 (3602879701896397 / 36028797018963968) = 1 / 2"
    "fmul 6 (3602879701896397 / 36028797018963968) = 1351079888211149 / 2251799813685248"
    "fmul 7 (3602879701896397 / 36028797018963968) = 6305039478318695 / 9007199254740992"
    "fmul 8 (3602879701896397 / 36028797018963968) = 3602879701896397 / 4503599627370496"
    "fmul 9 (3602879701896397 / 36028797018963968) = 8106479329266893 / 9007199254740992"
    "fmul 10 (3602879701896397 / 36028797018963968) = 1"
    by (simp_all add: fmul_def fl64_eval)
  have a: "fadd 0 x = fl64 x" for x by (simp add: fadd_def)
  have r: "fl64 (3602879701896397 / 18014398509481984) = 3602879701896397 / 18014398509481984"
    "fl64 (1351079888211149 / 4503599627370496) = 1351079888211149 / 4503599627370496"
    "fl64 (3602879701896397 / 9007199254740992) = 3602879701896397 / 9007199254740992"
    "fl64 (1 / 2) = 1 / 2"
    "fl64 (1351079888211149 / 2251799813685248) = 1351079888211149 / 2251799813685248"
    "fl64 (6305039478318695 / 9007199254740992) = 6305039478318695 / 9007199254740992"
    "fl64 (3602879701896397 / 4503599627370496) = 3602879701896397 / 4503599627370496"
    "fl64 (8106479329266893 / 9007199254740992) = 8106479329266893 / 9007199254740992"
    by (simp_all add: fl64_eval)
  show ?thesis
    unfolding arange64_def fl64_literals Let_def n d
    by (simp add: upt_rec a m r fl64_literals)
qed

lemma fdiv_11: "fdiv 0 11 = 0" "fdiv 1 11 = 3275345183542179 / 36028797018963968"
  by (simp_all add: fdiv_def fl64_eval)

lemma eleven_elevenths:
  "fadd 0 (3275345183542179 / 36028797018963968) = 3275345183542179 / 36028797018963968"
  "fadd (3275345183542179 / 36028797018963968) (3275345183542179 / 36028797018963968)
     = 3275345183542179 / 18014398509481984"
  "fadd (3275345183542179 / 18014398509481984) (3275345183542179 / 36028797018963968)
     = 1228254443828317 / 4503599627370496"
  "fadd (1228254443828317 / 4503599627370496) (3275345183542179 / 36028797018963968)
     = 3275345183542179 / 9007199254740992"
  "fadd (3275345183542179 / 9007199254740992) (3275345183542179 / 36028797018963968)
     = 1023545369856931 / 2251799813685248"
  "fadd (1023545369856931 / 2251799813685248) (3275345183542179 / 36028797018963968)
     = 4913017775313269 / 9007199254740992"
  "fadd (4913017775313269 / 9007199254740992) (3275345183542179 / 36028797018963968)
     = 2865927035599407 / 4503599627370496"
  "fadd (2865927035599407 / 4503599627370496) (3275345183542179 / 36028797018963968)
     = 6550690367084359 / 9007199254740992"
  "fadd (6550690367084359 / 9007199254740992) (3275345183542179 / 36028797018963968)
     = 460595416435619 / 562949953421312"
  "fadd (460595416435619 / 562949953421312) (3275345183542179 / 36028797018963968)
     = 8188362958855449 / 9007199254740992"
  "fadd (8188362958855449 / 9007199254740992) (3275345183542179 / 36028797018963968)
     = 4503599627370497 / 4503599627370496"
  by (simp_all add: fadd_def fl64_eval)

lemma fadd_keep:
  "fadd (1228254443828317 / 4503599627370496) 0 = 1228254443828317 / 4503599627370496"
  by (simp add: fadd_def fl64_eval)

lemma voc_ap_07_binary64_ones:
  "voc_ap_07_binary64 [Num 1] [1] = Inr (4503599627370497 / 4503599627370496)"
  unfolding voc_ap_07_binary64_def thresholds64
  by (simp add: np_sum_mask_def ge_mask_def mask_select_def np_max_def fdiv_11 eleven_elevenths)

lemma voc_ap_07_binary64_three_tenths:
  "voc_ap_07_binary64 [Num (5404319552844595 / 18014398509481984)] [1]
     = Inr (1228254443828317 / 4503599627370496)"
  unfolding voc_ap_07_binary64_def thresholds64
  by (simp add: np_sum_mask_def ge_mask_def mask_select_def np_max_def fdiv_11 eleven_elevenths
      fadd_keep)

subsection \<open>The 11-point mode\<close>

lemma np_sum_mask_zero:
  "np_sum_mask (ge_mask rec t) = 0 \<longleftrightarrow> \<not> (\<exists>i<length rec. ge64 (rec ! i) t)"
  by (auto simp: np_sum_mask_def ge_mask_def filter_empty_conv all_set_conv_all_nth)

lemma set_selected:
  assumes "length prec = length rec"
  shows "set (map fst (filter snd (zip prec (ge_mask rec t))))
           = {prec ! i |i. i < length rec \<and> ge64 (rec ! i) t}"
  using assms by (auto simp: ge_mask_def set_zip image_iff) force

lemma np_max_Max: "xs \<noteq> [] \<Longrightarrow> np_max xs = Inr (Max (set xs))"
  by (cases xs) (simp_all add: np_max_def Max.set_eq_fold[symmetric])

lemma ap_11_point64_step:
  assumes "length prec = length rec"
  shows "ap_11_point64 rec prec (t # ts) ap
       = ap_11_point64 rec prec ts (fadd ap (fdiv (sampled rec prec t) 11))"
proof (cases "\<exists>i<length rec. ge64 (rec ! i) t")
  case False
  then show ?thesis
    using np_sum_mask_zero[of rec t] by (auto simp: sampled_def)
next
  case True
  then have nz: "np_sum_mask (ge_mask rec t) \<noteq> 0"
    using np_sum_mask_zero[of rec t] by simp
  let ?sel = "map fst (filter snd (zip prec (ge_mask rec t)))"
  have sel: "mask_select prec (ge_mask rec t) = Inr ?sel"
    using assms by (simp add: mask_select_def ge_mask_def)
  have S: "set ?sel = {prec ! i |i. i < length rec \<and> ge64 (rec ! i) t}"
    by (rule set_selected[OF assms])
  from True have "set ?sel \<noteq> {}" unfolding S by blast
  then have "?sel \<noteq> []" unfolding set_empty .
  then have "np_max ?sel = Inr (Max (set ?sel))" by (rule np_max_Max)
  with nz sel S True show ?thesis by (simp add: sampled_def)
qed

lemma ap_11_point64_foldl:
  assumes "length prec = length rec"
  shows "ap_11_point64 rec prec ts ap
       = Inr (foldl (\<lambda>ap t. fadd ap (fdiv (sampled rec prec t) 11)) ap ts)"
proof (induction ts arbitrary: ap)
  case Nil
  show ?case by simp
next
  case (Cons t ts)
  show ?case unfolding ap_11_point64_step[OF assms] Cons.IH by simp
qed

lemma sampled_single: "sampled [Num r] [p] t = (if t \<le> r then p else 0)"
  by (simp add: sampled_def)

lemma decimal_thresholds64:
  "map fl64 [0, 1/10, 2/10, 3/10, 4/10, 5/10, 6/10, 7/10, 8/10, 9/10, 1] =
     [0, 3602879701896397 / 36028797018963968, 3602879701896397 / 18014398509481984,
      5404319552844595 / 18014398509481984, 3602879701896397 / 9007199254740992, 1 / 2,
      5404319552844595 / 9007199254740992, 3152519739159347 / 4503599627370496,
      3602879701896397 / 4503599627370496, 8106479329266893 / 9007199254740992, 1]"
  by (simp add: fl64_eval)

lemma fadd_keep4:
  "fadd (3275345183542179 / 9007199254740992) 0 = 3275345183542179 / 9007199254740992"
  by (simp add: fadd_def fl64_eval)


text \<open>
  Claim C2, as amended. In 11-point mode \<open>voc_ap\<close> samples eleven recall thresholds, the
  binary64 numbers that \<open>np.arange(0., 1.1, 0.1)\<close> computes: \<open>i\<close> times the binary64 number
  \<open>0.1\<close>, rounded. They are \<open>0, 0.1, 0.2, 0.30000000000000004, 0.4, 0.5,
  0.6000000000000001, 0.7000000000000001, 0.8, 0.9, 1\<close>; three of them lie one unit in the
  last place above the binary64 numbers \<open>0.3\<close>, \<open>0.6\<close> and \<open>0.7\<close>. At each threshold
  \<open>t\<close> the function takes the largest precision among the indices whose recall is at least
  \<open>t\<close> (\<open>recall[i] >= t\<close> as floats compare: a \<open>nan\<close> recall is at least nothing), or
  \<open>0\<close> when there is none, and it returns the sum, from left to right in binary64
  arithmetic, of the eleven quotients by \<open>11\<close>. The two arrays have the same length.
\<close>

theorem voc_ap_07_binary64_samples:
  assumes "length prec = length rec"
  shows "arange64 (fl64 0) (fl64 1.1) (fl64 0.1) =
           [0, 3602879701896397 / 36028797018963968, 3602879701896397 / 18014398509481984,
            1351079888211149 / 4503599627370496, 3602879701896397 / 9007199254740992, 1 / 2,
            1351079888211149 / 2251799813685248, 6305039478318695 / 9007199254740992,
            3602879701896397 / 4503599627370496, 8106479329266893 / 9007199254740992, 1]
       \<and> voc_ap_07_binary64 rec prec =
           Inr (foldl (\<lambda>ap t. fadd ap (fdiv
                    (if \<exists>i<length rec. ge64 (rec ! i) t
                     then Max {prec ! i |i. i < length rec \<and> ge64 (rec ! i) t} else 0) 11)) 0
                 [0, 3602879701896397 / 36028797018963968, 3602879701896397 / 18014398509481984,
                  1351079888211149 / 4503599627370496, 3602879701896397 / 9007199254740992, 1 / 2,
                  1351079888211149 / 2251799813685248, 6305039478318695 / 9007199254740992,
                  3602879701896397 / 4503599627370496, 8106479329266893 / 9007199254740992, 1])"
proof -
  have "voc_ap_07_binary64 rec prec =
      Inr (foldl (\<lambda>ap t. fadd ap (fdiv (sampled rec prec t) 11)) 0
            (arange64 (fl64 0) (fl64 1.1) (fl64 0.1)))"
    by (simp add: voc_ap_07_binary64_def ap_11_point64_foldl[OF assms])
  then show ?thesis
    unfolding thresholds64 sampled_def by simp
qed

theorem voc_ap_07_binary64_samples_witness:
  "length [1 :: real] = length [Num (5404319552844595 / 18014398509481984)]
   \<and> voc_ap_07_binary64 [Num (5404319552844595 / 18014398509481984)] [1] =
           Inr (foldl (\<lambda>ap t. fadd ap (fdiv
                    (if \<exists>i<length [Num (5404319552844595 / 18014398509481984)].
                          ge64 ([Num (5404319552844595 / 18014398509481984)] ! i) t
                     then Max {[1 :: real] ! i |i.
                            i < length [Num (5404319552844595 / 18014398509481984)]
                            \<and> ge64 ([Num (5404319552844595 / 18014398509481984)] ! i) t}
                     else 0) 11)) 0
                 [0 :: real, 3602879701896397 / 36028797018963968,
                  3602879701896397 / 18014398509481984,
                  1351079888211149 / 4503599627370496, 3602879701896397 / 9007199254740992, 1 / 2,
                  1351079888211149 / 2251799813685248, 6305039478318695 / 9007199254740992,
                  3602879701896397 / 4503599627370496, 8106479329266893 / 9007199254740992, 1])
   \<and> voc_ap_07_binary64 [Num (5404319552844595 / 18014398509481984)] [1]
       = Inr (1228254443828317 / 4503599627370496)"
proof -
  have h: "length [1 :: real] = length [Num (5404319552844595 / 18014398509481984)]" by simp
  show ?thesis
    by (intro conjI, rule h, rule voc_ap_07_binary64_samples[OF h, THEN conjunct2],
        rule voc_ap_07_binary64_three_tenths)
qed


text \<open>
  The claim as it is stated fails on the code. With the thresholds read as the binary64
  numbers \<open>0.0, 0.1, \<dots>, 1.0\<close>, a recall array holding the binary64 number \<open>0.3\<close> (three
  of ten ground-truth boxes found) with precision \<open>1\<close> reaches four thresholds, but the code
  counts three, since its fourth threshold is \<open>0.30000000000000004\<close>. With the thresholds
  and the mean read in exact arithmetic, recall \<open>[1]\<close> and precision \<open>[1]\<close> have mean \<open>1\<close>,
  but the code returns \<open>1.0000000000000002\<close>.
\<close>

theorem voc_ap_07_decimal_thresholds_counterexample:
  "voc_ap_07_binary64 [Num (fl64 (3/10))] [1] = Inr (1228254443828317 / 4503599627370496)
   \<and> foldl (\<lambda>ap t. fadd ap (fdiv (sampled [Num (fl64 (3/10))] [1] t) 11)) 0
        (map fl64 [0, 1/10, 2/10, 3/10, 4/10, 5/10, 6/10, 7/10, 8/10, 9/10, 1])
      = 3275345183542179 / 9007199254740992
   \<and> (1228254443828317 / 4503599627370496 :: real) \<noteq> 3275345183542179 / 9007199254740992
   \<and> voc_ap_07_binary64 [Num 1] [1] = Inr (4503599627370497 / 4503599627370496)
   \<and> (\<Sum>t\<leftarrow>[0, 1/10, 2/10, 3/10, 4/10, 5/10, 6/10, 7/10, 8/10, 9/10, 1].
         sampled [Num 1] [1] t / 11) = 1
   \<and> (4503599627370497 / 4503599627370496 :: real) \<noteq> 1"
proof -
  have a: "voc_ap_07_binary64 [Num (fl64 (3/10))] [1] = Inr (1228254443828317 / 4503599627370496)"
    by (simp add: fl64_literals voc_ap_07_binary64_three_tenths)
  have b: "foldl (\<lambda>ap t. fadd ap (fdiv (sampled [Num (fl64 (3/10))] [1] t) 11)) 0
        (map fl64 [0, 1/10, 2/10, 3/10, 4/10, 5/10, 6/10, 7/10, 8/10, 9/10, 1])
      = 3275345183542179 / 9007199254740992"
    unfolding decimal_thresholds64 fl64_literals
    by (simp add: sampled_single fdiv_11 eleven_elevenths fadd_keep4)
  have c: "(\<Sum>t\<leftarrow>[0, 1/10, 2/10, 3/10, 4/10, 5/10, 6/10, 7/10, 8/10, 9/10, 1].
         sampled [Num 1] [1] t / 11) = (1::real)"
    by (simp add: sampled_single)
  from a b c voc_ap_07_binary64_ones show ?thesis by simp
qed



subsection \<open>Binary64 rounding is monotone\<close>

lemma exponent_up_spec:
  assumes "2 powi e0 \<le> x"
  shows "e0 \<le> exponent_up n x e0 \<and> exponent_up n x e0 \<le> e0 + int n
       \<and> 2 powi (exponent_up n x e0) \<le> x
       \<and> (x < 2 powi (exponent_up n x e0 + 1) \<or> exponent_up n x e0 = e0 + int n)"
  using assms
proof (induction n arbitrary: e0)
  case 0
  then show ?case by simp
next
  case (Suc n)
  show ?case
  proof (cases "x < 2 powi (e0 + 1)")
    case True
    with Suc.prems show ?thesis by simp
  next
    case False
    then have "2 powi (e0 + 1) \<le> x" by simp
    from Suc.IH[OF this] False show ?thesis by auto
  qed
qed

lemma exponent_down_spec:
  assumes "x < 2 powi (e0 + 1)"
  shows "e0 - int n \<le> exponent_down n x e0 \<and> exponent_down n x e0 \<le> e0
       \<and> x < 2 powi (exponent_down n x e0 + 1)
       \<and> (2 powi (exponent_down n x e0) \<le> x \<or> exponent_down n x e0 = e0 - int n)"
  using assms
proof (induction n arbitrary: e0)
  case 0
  then show ?case by simp
next
  case (Suc n)
  show ?case
  proof (cases "2 powi e0 \<le> x")
    case True
    with Suc.prems show ?thesis by simp
  next
    case False
    then have "x < 2 powi (e0 - 1 + 1)" by simp
    from Suc.IH[OF this] False show ?thesis by auto
  qed
qed

lemma exponent64_spec:
  "- 1022 \<le> exponent64 x \<and> exponent64 x \<le> 1023
   \<and> (x < 2 powi (exponent64 x + 1) \<or> exponent64 x = 1023)
   \<and> (2 powi (exponent64 x) \<le> x \<or> exponent64 x = - 1022)"
proof (cases "1 \<le> x")
  case True
  then have "2 powi 0 \<le> x" by simp
  from exponent_up_spec[OF this, of 1023] True show ?thesis
    by (auto simp: exponent64_def)
next
  case False
  then have "x < 2 powi (0 + 1)" by simp
  from exponent_down_spec[OF this, of 1022] False show ?thesis
    by (auto simp: exponent64_def)
qed

lemma exponent64_mono:
  assumes "x \<le> y"
  shows "exponent64 x \<le> exponent64 y"
proof (rule ccontr)
  assume "\<not> exponent64 x \<le> exponent64 y"
  then have lt: "exponent64 y < exponent64 x" by simp
  from exponent64_spec[of x] exponent64_spec[of y] lt
  have a: "2 powi (exponent64 x) \<le> x" and b: "y < 2 powi (exponent64 y + 1)" by auto
  from lt have "(2::real) powi (exponent64 y + 1) \<le> 2 powi (exponent64 x)"
    by (intro power_int_increasing) auto
  with a b assms show False by simp
qed

lemma round_even_cases: "round_even y = \<lfloor>y\<rfloor> \<or> round_even y = \<lfloor>y\<rfloor> + 1"
  by (auto simp: round_even_def Let_def)

lemma round_even_ge:
  assumes "of_int n \<le> y"
  shows "n \<le> round_even y"
proof -
  from assms have "n \<le> \<lfloor>y\<rfloor>" by (simp add: le_floor_iff)
  with round_even_cases[of y] show ?thesis by auto
qed

lemma round_even_le:
  assumes "y \<le> of_int n"
  shows "round_even y \<le> n"
proof (cases "\<lfloor>y\<rfloor> = n")
  case True
  with assms have "y = of_int n" by (metis of_int_floor_le order_antisym)
  then show ?thesis by (simp add: round_even_def)
next
  case False
  from assms have "\<lfloor>y\<rfloor> \<le> n" by (simp add: floor_le_iff)
  with False have "\<lfloor>y\<rfloor> + 1 \<le> n" by simp
  with round_even_cases[of y] show ?thesis by auto
qed

lemma round_even_mono:
  assumes "y \<le> z"
  shows "round_even y \<le> round_even z"
proof (cases "\<lfloor>y\<rfloor> = \<lfloor>z\<rfloor>")
  case True
  with assms have "y - of_int \<lfloor>z\<rfloor> \<le> z - of_int \<lfloor>z\<rfloor>" by simp
  with True show ?thesis by (auto simp: round_even_def Let_def)
next
  case False
  from assms have "\<lfloor>y\<rfloor> \<le> \<lfloor>z\<rfloor>" by (rule floor_mono)
  with False have "\<lfloor>y\<rfloor> + 1 \<le> \<lfloor>z\<rfloor>" by simp
  moreover from round_even_cases[of y] have "round_even y \<le> \<lfloor>y\<rfloor> + 1" by auto
  moreover from round_even_cases[of z] have "\<lfloor>z\<rfloor> \<le> round_even z" by auto
  ultimately show ?thesis by simp
qed

lemma fl64_pos:
  assumes "0 < x"
  shows "fl64 x = of_int (round_even (x / 2 powi (exponent64 x - 52))) * 2 powi (exponent64 x - 52)"
  using assms by (simp add: fl64_def Let_def)

lemma fl64_nonneg:
  assumes "0 \<le> x"
  shows "0 \<le> fl64 x"
proof (cases "x = 0")
  case True
  then show ?thesis by (simp add: fl64_def)
next
  case False
  with assms have x: "0 < x" by simp
  have "of_int 0 \<le> x / 2 powi (exponent64 x - 52)" using x by simp
  then have "0 \<le> round_even (x / 2 powi (exponent64 x - 52))" by (rule round_even_ge)
  then show ?thesis unfolding fl64_pos[OF x] by simp
qed

lemma scale53: "(2::real) powi (e + 1) = of_int (2 ^ 53) * 2 powi (e - 52)"
proof -
  have "e + 1 = 53 + (e - 52)" by simp
  then have "(2::real) powi (e + 1) = 2 powi (53 + (e - 52))" by (simp only:)
  also have "\<dots> = 2 powi 53 * 2 powi (e - 52)" by (rule power_int_add) simp
  finally show ?thesis by simp
qed

lemma scale52: "(2::real) powi e = of_int (2 ^ 52) * 2 powi (e - 52)"
proof -
  have "e = 52 + (e - 52)" by simp
  then have "(2::real) powi e = 2 powi (52 + (e - 52))" by (rule arg_cong)
  also have "\<dots> = 2 powi 52 * 2 powi (e - 52)" by (rule power_int_add) simp
  finally show ?thesis by simp
qed

lemma fl64_upper:
  assumes "0 < x" and "x < 2 powi (exponent64 x + 1)"
  shows "fl64 x \<le> 2 powi (exponent64 x + 1)"
proof -
  let ?u = "(2::real) powi (exponent64 x - 52)"
  have u: "0 < ?u" by simp
  from assms(2) have "x < of_int (2 ^ 53) * ?u" by (simp only: scale53)
  with u have "x / ?u \<le> of_int (2 ^ 53)" by (simp add: pos_divide_le_eq)
  then have "round_even (x / ?u) \<le> 2 ^ 53" by (rule round_even_le)
  then have "(of_int (round_even (x / ?u)) :: real) \<le> of_int (2 ^ 53)" by (simp only: of_int_le_iff)
  with u have "of_int (round_even (x / ?u)) * ?u \<le> of_int (2 ^ 53) * ?u"
    by (simp only: mult_le_cancel_right_pos)
  then show ?thesis unfolding fl64_pos[OF assms(1)] scale53 .
qed

lemma fl64_lower:
  assumes "0 < x" and "2 powi (exponent64 x) \<le> x"
  shows "2 powi (exponent64 x) \<le> fl64 x"
proof -
  let ?u = "(2::real) powi (exponent64 x - 52)"
  have u: "0 < ?u" by simp
  from assms(2) have "of_int (2 ^ 52) * ?u \<le> x" by (simp only: scale52[symmetric])
  with u have "of_int (2 ^ 52) \<le> x / ?u" by (simp add: pos_le_divide_eq)
  then have "2 ^ 52 \<le> round_even (x / ?u)" by (rule round_even_ge)
  then have "(of_int (2 ^ 52) :: real) \<le> of_int (round_even (x / ?u))" by (simp only: of_int_le_iff)
  with u have "of_int (2 ^ 52) * ?u \<le> of_int (round_even (x / ?u)) * ?u"
    by (simp only: mult_le_cancel_right_pos)
  then show ?thesis unfolding fl64_pos[OF assms(1)] scale52[of "exponent64 x"] .
qed

lemma fl64_mono:
  assumes "0 \<le> x" and "x \<le> y"
  shows "fl64 x \<le> fl64 y"
proof (cases "x = 0")
  case True
  with assms fl64_nonneg[of y] show ?thesis by (simp add: fl64_def)
next
  case False
  with assms have x: "0 < x" and y: "0 < y" by simp_all
  from exponent64_mono[OF assms(2)] have e: "exponent64 x \<le> exponent64 y" .
  show ?thesis
  proof (cases "exponent64 x = exponent64 y")
    case True
    let ?u = "(2::real) powi (exponent64 y - 52)"
    have u: "0 < ?u" by simp
    from assms(2) u have "x / ?u \<le> y / ?u" by (simp add: divide_right_mono)
    then have "round_even (x / ?u) \<le> round_even (y / ?u)" by (rule round_even_mono)
    then have "(of_int (round_even (x / ?u)) :: real) \<le> of_int (round_even (y / ?u))"
      by (simp only: of_int_le_iff)
    with u have "of_int (round_even (x / ?u)) * ?u \<le> of_int (round_even (y / ?u)) * ?u"
      by (simp only: mult_le_cancel_right_pos)
    then show ?thesis unfolding fl64_pos[OF x] fl64_pos[OF y] True .
  next
    case False
    with e have lt: "exponent64 x < exponent64 y" by simp
    from exponent64_spec[of x] exponent64_spec[of y] lt
    have a: "x < 2 powi (exponent64 x + 1)" and b: "2 powi (exponent64 y) \<le> y" by auto
    from lt have "(2::real) powi (exponent64 x + 1) \<le> 2 powi (exponent64 y)"
      by (intro power_int_increasing) auto
    with fl64_upper[OF x a] fl64_lower[OF y b] show ?thesis by simp
  qed
qed


subsection \<open>Binary64 numbers are fixed points of the rounding\<close>

lemma round_even_of_int: "round_even (of_int k) = k"
  by (simp add: round_even_def)

lemma round_even_err: "\<bar>of_int (round_even y) - y\<bar> \<le> 1/2"
proof -
  define f where "f = y - of_int \<lfloor>y\<rfloor>"
  have f: "0 \<le> f" "f < 1" unfolding f_def by linarith+
  have y: "y = of_int \<lfloor>y\<rfloor> + f" by (simp add: f_def)
  have "round_even y = \<lfloor>y\<rfloor> \<and> f \<le> 1/2 \<or> round_even y = \<lfloor>y\<rfloor> + 1 \<and> 1/2 \<le> f"
    by (auto simp: round_even_def Let_def f_def)
  then show ?thesis
  proof
    assume a: "round_even y = \<lfloor>y\<rfloor> \<and> f \<le> 1/2"
    then have "of_int (round_even y) - y = - f" by (simp add: f_def)
    with a f show ?thesis by simp
  next
    assume a: "round_even y = \<lfloor>y\<rfloor> + 1 \<and> 1/2 \<le> f"
    then have "of_int (round_even y) - y = 1 - f" by (simp add: f_def)
    with a f show ?thesis by simp
  qed
qed

lemma exponent64_unique:
  assumes "- 1022 \<le> e" and "e \<le> 1023" and "2 powi e \<le> x" and "x < 2 powi (e + 1)"
  shows "exponent64 x = e"
proof (rule antisym)
  show "exponent64 x \<le> e"
  proof (rule ccontr)
    assume "\<not> exponent64 x \<le> e"
    then have lt: "e < exponent64 x" by simp
    with assms(1) exponent64_spec[of x] have a: "2 powi (exponent64 x) \<le> x" by auto
    from lt have "(2::real) powi (e + 1) \<le> 2 powi (exponent64 x)"
      by (intro power_int_increasing) auto
    with a assms(4) show False by simp
  qed
  show "e \<le> exponent64 x"
  proof (rule ccontr)
    assume "\<not> e \<le> exponent64 x"
    then have lt: "exponent64 x < e" by simp
    with assms(2) exponent64_spec[of x] have a: "x < 2 powi (exponent64 x + 1)" by auto
    from lt have "(2::real) powi (exponent64 x + 1) \<le> 2 powi e"
      by (intro power_int_increasing) auto
    with a assms(3) show False by simp
  qed
qed

lemma fl64_zero: "fl64 0 = 0"
  by (simp add: fl64_def)

lemma fl64_idem:
  assumes "0 \<le> x"
  shows "fl64 (fl64 x) = fl64 x"
proof (cases "fl64 x = 0")
  case True
  then show ?thesis by (simp add: fl64_zero)
next
  case False
  with assms have x: "0 < x" by (cases "x = 0") (simp_all add: fl64_zero)
  define e where "e = exponent64 x"
  define u :: real where "u = 2 powi (e - 52)"
  define k where "k = round_even (x / u)"
  have u: "0 < u" by (simp add: u_def)
  have y: "fl64 x = of_int k * u" unfolding k_def u_def e_def by (rule fl64_pos[OF x])
  from fl64_nonneg[OF assms] False have ypos: "0 < fl64 x" by simp
  from exponent64_spec[of x] have eb: "- 1022 \<le> e" "e \<le> 1023"
    and up: "x < 2 powi (e + 1) \<or> e = 1023" and lo: "2 powi e \<le> x \<or> e = - 1022"
    by (simp_all add: e_def)
  define e' where "e' = exponent64 (fl64 x)"
  from exponent64_spec[of "fl64 x"] have eb': "- 1022 \<le> e'" "e' \<le> 1023"
    and up': "fl64 x < 2 powi (e' + 1) \<or> e' = 1023"
    and lo': "2 powi e' \<le> fl64 x \<or> e' = - 1022" by (simp_all add: e'_def)
  have yy: "fl64 (fl64 x) = of_int (round_even (fl64 x / 2 powi (e' - 52))) * 2 powi (e' - 52)"
    unfolding e'_def by (rule fl64_pos[OF ypos])
  have ge: "e \<le> e'"
  proof (cases "e = - 1022")
    case True
    with eb' show ?thesis by simp
  next
    case False
    with lo have l: "2 powi e \<le> x" by simp
    from fl64_lower[OF x] l have ly: "2 powi e \<le> fl64 x" by (simp add: e_def)
    show ?thesis
    proof (rule ccontr)
      assume "\<not> e \<le> e'"
      then have lt: "e' < e" by simp
      with eb up' have a: "fl64 x < 2 powi (e' + 1)" by auto
      from lt have "(2::real) powi (e' + 1) \<le> 2 powi e"
        by (intro power_int_increasing) auto
      with a ly show False by simp
    qed
  qed
  have cases: "e' = e \<or> (e' = e + 1 \<and> fl64 x = 2 powi (e + 1))"
  proof (cases "e = 1023")
    case True
    with ge eb' show ?thesis by simp
  next
    case False
    with up have "x < 2 powi (e + 1)" by simp
    with fl64_upper[OF x] have uy: "fl64 x \<le> 2 powi (e + 1)" by (simp add: e_def)
    show ?thesis
    proof (cases "fl64 x = 2 powi (e + 1)")
      case True
      have "e' = e + 1" unfolding e'_def
      proof (rule exponent64_unique)
        show "- 1022 \<le> e + 1" using eb by simp
        show "e + 1 \<le> 1023" using eb False by simp
        show "2 powi (e + 1) \<le> fl64 x" using True by simp
        have "(2::real) powi (e + 1) < 2 powi (e + 1 + 1)"
          by (intro power_int_strict_increasing) auto
        with True show "fl64 x < 2 powi (e + 1 + 1)" by simp
      qed
      with True show ?thesis by simp
    next
      case False
      with uy have s: "fl64 x < 2 powi (e + 1)" by simp
      have "e' \<le> e"
      proof (rule ccontr)
        assume "\<not> e' \<le> e"
        then have lt: "e < e'" by simp
        with eb lo' have a: "2 powi e' \<le> fl64 x" by auto
        from lt have "(2::real) powi (e + 1) \<le> 2 powi e'"
          by (intro power_int_increasing) auto
        with a s show False by simp
      qed
      with ge show ?thesis by simp
    qed
  qed
  from cases show ?thesis
  proof
    assume eq: "e' = e"
    have "fl64 x / u = of_int k" using u by (simp add: y)
    then have "round_even (fl64 x / 2 powi (e' - 52)) = k"
      by (simp add: eq u_def[symmetric] round_even_of_int)
    then have "fl64 (fl64 x) = of_int k * 2 powi (e' - 52)"
      by (simp only: yy)
    also have "\<dots> = of_int k * u" by (simp only: eq u_def)
    also have "\<dots> = fl64 x" by (simp only: y)
    finally show ?thesis .
  next
    assume "e' = e + 1 \<and> fl64 x = 2 powi (e + 1)"
    then have eq: "e' = e + 1" and v: "fl64 x = 2 powi (e + 1)" by blast+
    have w: "(2::real) powi (e + 1) = of_int (2 ^ 52) * 2 powi (e + 1 - 52)"
      by (rule scale52)
    then have "fl64 x = of_int (2 ^ 52) * 2 powi (e' - 52)" by (simp only: v eq)
    then have q: "fl64 x / 2 powi (e' - 52) = of_int (2 ^ 52)" by simp
    have "round_even (fl64 x / 2 powi (e' - 52)) = 2 ^ 52"
      unfolding q by (rule round_even_of_int)
    then have "fl64 (fl64 x) = of_int (2 ^ 52) * 2 powi (e' - 52)"
      by (simp only: yy)
    also have "\<dots> = 2 powi (e + 1)" by (simp only: eq w[symmetric])
    also have "\<dots> = fl64 x" by (simp only: v)
    finally show ?thesis .
  qed
qed

lemma binary64_fl64: "0 \<le> x \<Longrightarrow> binary64 (fl64 x)"
  by (simp add: binary64_def fl64_idem)

lemma fl64_error:
  assumes "0 \<le> x" and "x < 2"
  shows "fl64 x \<le> x + 1 / 2 ^ 53"
proof (cases "x = 0")
  case True
  then show ?thesis by (simp add: fl64_zero)
next
  case False
  with assms have x: "0 < x" by simp
  define e where "e = exponent64 x"
  define u :: real where "u = 2 powi (e - 52)"
  have u: "0 < u" by (simp add: u_def)
  have e0: "e \<le> 0"
  proof (rule ccontr)
    assume "\<not> e \<le> 0"
    then have p: "1 \<le> e" by simp
    with exponent64_spec[of x] have a: "2 powi e \<le> x" by (auto simp: e_def)
    from p have "(2::real) powi 1 \<le> 2 powi e" by (intro power_int_increasing) auto
    with a assms(2) show False by simp
  qed
  then have "u \<le> 2 powi (- 52)" unfolding u_def by (intro power_int_increasing) auto
  then have ub: "u \<le> 1 / 2 ^ 52" by (simp add: power_int_minus divide_simps)
  have y: "fl64 x = of_int (round_even (x / u)) * u"
    unfolding u_def e_def by (rule fl64_pos[OF x])
  have "of_int (round_even (x / u)) - x / u \<le> \<bar>of_int (round_even (x / u)) - x / u\<bar>"
    by (rule abs_ge_self)
  also have "\<dots> \<le> 1/2" by (rule round_even_err)
  finally have "of_int (round_even (x / u)) - x / u \<le> 1/2" .
  with u have "(of_int (round_even (x / u)) - x / u) * u \<le> 1/2 * u"
    by (simp only: mult_le_cancel_right_pos)
  moreover have "(of_int (round_even (x / u)) - x / u) * u = fl64 x - x"
    using u by (simp add: y left_diff_distrib)
  ultimately have "fl64 x - x \<le> 1/2 * u" by (simp only:)
  with ub show ?thesis by simp
qed

subsection \<open>The contract of np.sum\<close>

lemma rsum_zero:
  assumes "rsum M v" and "\<forall>x\<in>#M. x = 0"
  shows "v = 0"
  using assms by (induction rule: rsum.induct) (simp_all add: fadd_def fl64_zero)

lemma np_sum_zero:
  assumes "np_sum_ok np_sum"
  shows "np_sum [0] = 0"
proof -
  have "\<forall>x\<in>set [0::real]. binary64 x" by (simp add: binary64_def fl64_zero)
  with assms have "rsum (mset [0]) (np_sum [0])" unfolding np_sum_ok_def by blast
  then show ?thesis by (rule rsum_zero) simp
qed

lemma rsum_foldl:
  assumes "rsum M a"
  shows "rsum (M + mset xs) (foldl fadd a xs)"
  using assms
proof (induction xs arbitrary: M a)
  case Nil
  then show ?case by simp
next
  case (Cons x xs)
  from rsum_add[OF Cons.prems rsum_single[of x]] have "rsum (M + {#x#}) (fadd a x)" .
  from Cons.IH[OF this] show ?case by (simp add: ac_simps)
qed

lemma np_sum_seq_ok: "np_sum_ok np_sum_seq"
  unfolding np_sum_ok_def np_sum_seq_def using rsum_foldl[OF rsum_empty] by simp

lemma rsum_pair: "rsum {#x, y#} (fadd x y)"
proof -
  have "{#x#} + {#y#} = {#x, y#}" by simp
  with rsum_add[OF rsum_single[of x] rsum_single[of y]] show ?thesis by (simp only:)
qed

lemma rsum_tree8:
  "rsum {#a0, a1, a2, a3, a4, a5, a6, a7#}
     (fadd (fadd (fadd a0 a1) (fadd a2 a3)) (fadd (fadd a4 a5) (fadd a6 a7)))"
proof -
  have "{#a0, a1#} + {#a2, a3#} = {#a0, a1, a2, a3#}" by simp
  with rsum_add[OF rsum_pair[of a0 a1] rsum_pair[of a2 a3]]
  have l: "rsum {#a0, a1, a2, a3#} (fadd (fadd a0 a1) (fadd a2 a3))" by (simp only:)
  have "{#a4, a5#} + {#a6, a7#} = {#a4, a5, a6, a7#}" by simp
  with rsum_add[OF rsum_pair[of a4 a5] rsum_pair[of a6 a7]]
  have r: "rsum {#a4, a5, a6, a7#} (fadd (fadd a4 a5) (fadd a6 a7))" by (simp only:)
  have "{#a0, a1, a2, a3#} + {#a4, a5, a6, a7#} = {#a0, a1, a2, a3, a4, a5, a6, a7#}" by simp
  with rsum_add[OF l r] show ?thesis by (simp only:)
qed

lemma np_sum_pairwise_ok: "np_sum_ok np_sum_pairwise"
  unfolding np_sum_ok_def
proof (intro allI impI)
  fix xs :: "real list"
  have s: "rsum (mset ys) (foldl fadd 0 ys)" for ys
    using rsum_foldl[OF rsum_empty, of ys] by simp
  show "rsum (mset xs) (np_sum_pairwise xs)"
  proof (cases "\<exists>a0 a1 a2 a3 a4 a5 a6 a7 ys. xs = a0 # a1 # a2 # a3 # a4 # a5 # a6 # a7 # ys")
    case True
    then obtain a0 a1 a2 a3 a4 a5 a6 a7 ys
      where xs: "xs = a0 # a1 # a2 # a3 # a4 # a5 # a6 # a7 # ys" by blast
    have "{#a0, a1, a2, a3, a4, a5, a6, a7#} + mset ys = mset xs" by (simp add: xs)
    with rsum_foldl[OF rsum_tree8, of a0 a1 a2 a3 a4 a5 a6 a7 ys]
    have "rsum (mset xs) (foldl fadd
        (fadd (fadd (fadd a0 a1) (fadd a2 a3)) (fadd (fadd a4 a5) (fadd a6 a7))) ys)"
      by (simp only:)
    then show ?thesis by (simp add: xs np_sum_pairwise_def)
  next
    case False
    then have "np_sum_pairwise xs = foldl fadd 0 xs"
      unfolding np_sum_pairwise_def by (auto split: list.splits)
    with s[of xs] show ?thesis by simp
  qed
qed

lemma nums_Num: "nums (map Num ts) = ts"
  by (induction ts) (simp_all add: nums_def)

lemma sum64_Num: "sum64 np_sum (map Num ts) = Num (np_sum ts)"
  by (auto simp: sum64_def nums_Num)


subsection \<open>The exact-integral mode\<close>

lemma fl64_one: "fl64 1 = 1"
  by (simp add: fl64_eval)

lemma ap_exact_empty:
  assumes "np_sum_ok np_sum"
  shows "ap_exact np_sum [] [] = Inr (Num 0)"
  using np_sum_zero[OF assms]
  by (simp add: ap_exact_def changes_def ne64_def sum64_def nums_def fsub_def
      fmul_def fl64_one fl64_zero)

text \<open>
  Claim C6. On empty recall and precision arrays the exact-integral mode returns \<open>0\<close>:
  the arrays with their sentinels are \<open>[0, 1]\<close> and \<open>[0, 0]\<close>, the envelope leaves
  \<open>[0, 0]\<close>, recall changes once, and the one term of the sum is \<open>(1 - 0) * 0\<close>, which
  \<open>np.sum\<close> returns.
\<close>

theorem voc_ap_empty_exact:
  assumes "np_sum_ok np_sum"
  shows "voc_ap np_sum [] [] False = Inr (Num 0)"
  using ap_exact_empty[OF assms] by (simp add: voc_ap_def)

theorem voc_ap_empty_exact_witness:
  "np_sum_ok np_sum_seq \<and> voc_ap np_sum_seq [] [] False = Inr (Num 0)"
  using voc_ap_empty_exact[OF np_sum_seq_ok] np_sum_seq_ok by simp


subsection \<open>Bounds on the AP\<close>

lemma envelope_length: "length (envelope k xs) = length xs"
  by (induction k arbitrary: xs) simp_all

lemma envelope_unit:
  "\<forall>x\<in>set xs. 0 \<le> x \<and> x \<le> 1 \<Longrightarrow> k < length xs
     \<Longrightarrow> \<forall>x\<in>set (envelope k xs). 0 \<le> x \<and> x \<le> 1"
proof (induction k arbitrary: xs)
  case 0
  then show ?case by simp
next
  case (Suc k)
  let ?v = "max (xs ! k) (xs ! Suc k)"
  from Suc.prems have "xs ! k \<in> set xs" "xs ! Suc k \<in> set xs" by simp_all
  with Suc.prems(1) have v: "0 \<le> ?v \<and> ?v \<le> 1" by (simp add: max_def)
  have "set (xs[k := ?v]) \<subseteq> insert ?v (set xs)" by (rule set_update_subset_insert)
  with v Suc.prems(1) have a: "\<forall>x\<in>set (xs[k := ?v]). 0 \<le> x \<and> x \<le> 1" by blast
  from Suc.prems(2) have b: "k < length (xs[k := ?v])" by simp
  have "envelope (Suc k) xs = envelope k (xs[k := ?v])" by simp
  with Suc.IH[OF a b] show ?case by (simp only:)
qed

lemma sum_list_telescope:
  fixes f :: "nat \<Rightarrow> real"
  shows "(\<Sum>k\<leftarrow>[0..<m]. f (Suc k) - f k) = f m - f 0"
  by (induction m) simp_all

lemma sampled_unit:
  assumes "\<forall>p\<in>set prec. 0 \<le> p \<and> p \<le> 1" "length prec = length rec"
  shows "0 \<le> sampled rec prec t \<and> sampled rec prec t \<le> 1"
proof (cases "\<exists>i<length rec. ge64 (rec ! i) t")
  case False
  then show ?thesis by (auto simp: sampled_def)
next
  case True
  let ?S = "{prec ! i |i. i < length rec \<and> ge64 (rec ! i) t}"
  have fin: "finite ?S" by simp
  from True have ne: "?S \<noteq> {}" by blast
  have "?S \<subseteq> set prec" using assms(2) by auto
  moreover have "Max ?S \<in> ?S" using fin ne by (rule Max_in)
  ultimately have "Max ?S \<in> set prec" by blast
  with assms(1) True show ?thesis by (simp add: sampled_def)
qed

lemma foldl_fadd_bounds:
  assumes "\<forall>t\<in>set ts. 0 \<le> g t \<and> g t \<le> q" and "0 \<le> a" and "a \<le> b"
  shows "0 \<le> foldl (\<lambda>ap t. fadd ap (g t)) a ts
       \<and> foldl (\<lambda>ap t. fadd ap (g t)) a ts \<le> foldl (\<lambda>ap t. fadd ap q) b ts"
  using assms
proof (induction ts arbitrary: a b)
  case Nil
  then show ?case by simp
next
  case (Cons t ts)
  from Cons.prems have g: "0 \<le> g t" "g t \<le> q" by simp_all
  with Cons.prems(2,3) have s: "0 \<le> a + g t" "a + g t \<le> b + q" by simp_all
  have n: "0 \<le> fadd a (g t)" unfolding fadd_def using s(1) by (rule fl64_nonneg)
  have m: "fadd a (g t) \<le> fadd b q" unfolding fadd_def using s by (rule fl64_mono)
  from Cons.prems(1) have r: "\<forall>t\<in>set ts. 0 \<le> g t \<and> g t \<le> q" by simp
  from Cons.IH[OF r n m] show ?case by simp
qed

lemma eleven_elevenths_foldl:
  "foldl (\<lambda>ap t. fadd ap (fdiv 1 11)) 0
     [0 :: real, 3602879701896397 / 36028797018963968, 3602879701896397 / 18014398509481984,
      1351079888211149 / 4503599627370496, 3602879701896397 / 9007199254740992, 1 / 2,
      1351079888211149 / 2251799813685248, 6305039478318695 / 9007199254740992,
      3602879701896397 / 4503599627370496, 8106479329266893 / 9007199254740992, 1]
   = 4503599627370497 / 4503599627370496"
  by (simp add: fdiv_11 eleven_elevenths)


lemma voc_ap_07_binary64_bounds:
  assumes len: "length prec = length rec"
    and prec: "\<forall>p\<in>set prec. 0 \<le> p \<and> p \<le> 1"
  shows "\<exists>ap. voc_ap_07_binary64 rec prec = Inr ap \<and> 0 \<le> ap \<and> ap \<le> 1 + 1 / 2 ^ 52"
proof -
  let ?g = "\<lambda>t. fdiv (sampled rec prec t) 11"
  let ?ts = "arange64 (fl64 0) (fl64 1.1) (fl64 0.1)"
  let ?v = "foldl (\<lambda>ap t. fadd ap (?g t)) 0 ?ts"
  have g: "\<forall>t\<in>set ?ts. 0 \<le> ?g t \<and> ?g t \<le> fdiv 1 11"
  proof
    fix t
    from sampled_unit[OF prec len, of t]
    have s: "0 \<le> sampled rec prec t / 11" "sampled rec prec t / 11 \<le> 1 / 11" by simp_all
    show "0 \<le> ?g t \<and> ?g t \<le> fdiv 1 11"
      unfolding fdiv_def using fl64_nonneg[OF s(1)] fl64_mono[OF s] by simp
  qed
  have z: "(0::real) \<le> 0" by simp
  from foldl_fadd_bounds[OF g z z]
  have v0: "0 \<le> ?v" and v1: "?v \<le> foldl (\<lambda>ap t. fadd ap (fdiv 1 11)) 0 ?ts"
    by simp_all
  have "foldl (\<lambda>ap t. fadd ap (fdiv 1 11)) 0 ?ts = 4503599627370497 / 4503599627370496"
    unfolding thresholds64 by (rule eleven_elevenths_foldl)
  also have "\<dots> = 1 + 1 / 2 ^ 52" by simp
  finally have "foldl (\<lambda>ap t. fadd ap (fdiv 1 11)) 0 ?ts = 1 + 1 / 2 ^ 52" .
  with v1 have v2: "?v \<le> 1 + 1 / 2 ^ 52" by (simp only:)
  have r: "voc_ap_07_binary64 rec prec = Inr ?v"
    by (simp add: voc_ap_07_binary64_def ap_11_point64_foldl[OF len])
  from r v0 v2 show ?thesis by (intro exI[of _ ?v] conjI)
qed


lemma sum_mset_nonneg_real:
  fixes M :: "real multiset"
  assumes "\<forall>x\<in>#M. 0 \<le> x"
  shows "0 \<le> sum_mset M"
  using assms by (induction M) auto

lemma rsum_bound:
  assumes "rsum M v" and c: "c = 1 / 2 ^ 53"
    and "\<forall>x\<in>#M. 0 \<le> x \<and> binary64 x"
    and "sum_mset M + real (size M) * c < 2"
  shows "binary64 v \<and> 0 \<le> v \<and> (M = {#} \<longrightarrow> v = 0)
       \<and> (M \<noteq> {#} \<longrightarrow> v \<le> sum_mset M + (real (size M) - 1) * c)"
  using assms(1,3,4)
proof (induction rule: rsum.induct)
  case rsum_empty
  show ?case by (simp add: binary64_def fl64_zero)
next
  case (rsum_single x)
  then show ?case by simp
next
  case (rsum_add A a B b)
  have c0: "0 < c" by (simp add: c)
  from rsum_add.prems(1) have nA: "\<forall>x\<in>#A. 0 \<le> x \<and> binary64 x"
    and nB: "\<forall>x\<in>#B. 0 \<le> x \<and> binary64 x" by simp_all
  from nA have sA: "0 \<le> sum_mset A" by (intro sum_mset_nonneg_real) simp
  from nB have sB: "0 \<le> sum_mset B" by (intro sum_mset_nonneg_real) simp
  from rsum_add.prems(2)
  have tot: "sum_mset A + sum_mset B + (real (size A) + real (size B)) * c < 2" by simp
  have cA: "0 \<le> real (size A) * c" and cB: "0 \<le> real (size B) * c" using c0 by simp_all
  from tot sB cB have pA: "sum_mset A + real (size A) * c < 2" by (simp add: algebra_simps)
  from tot sA cA have pB: "sum_mset B + real (size B) * c < 2" by (simp add: algebra_simps)
  from rsum_add.IH(1)[OF nA pA] have a: "binary64 a" "0 \<le> a" "A = {#} \<longrightarrow> a = 0"
    "A \<noteq> {#} \<longrightarrow> a \<le> sum_mset A + (real (size A) - 1) * c" by simp_all
  from rsum_add.IH(2)[OF nB pB] have b: "binary64 b" "0 \<le> b" "B = {#} \<longrightarrow> b = 0"
    "B \<noteq> {#} \<longrightarrow> b \<le> sum_mset B + (real (size B) - 1) * c" by simp_all
  from a(2) b(2) have ab0: "0 \<le> a + b" by simp
  show ?case
  proof (cases "A = {#}")
    case True
    with a(3) have "a = 0" by simp
    with b(1) have e: "fadd a b = b" by (simp add: fadd_def binary64_def)
    from True have "A + B = B" by simp
    with b show ?thesis by (simp only: e; simp)
  next
    case neA: False
    show ?thesis
    proof (cases "B = {#}")
      case True
      with b(3) have "b = 0" by simp
      with a(1) have e: "fadd a b = a" by (simp add: fadd_def binary64_def)
      from True have "A + B = A" by simp
      with a show ?thesis by (simp only: e; simp)
    next
      case neB: False
      from neA a(4) have ua: "a \<le> sum_mset A + (real (size A) - 1) * c" by simp
      from neB b(4) have ub: "b \<le> sum_mset B + (real (size B) - 1) * c" by simp
      from ua ub have s: "a + b \<le> sum_mset A + sum_mset B
          + (real (size A) + real (size B)) * c - 2 * c" by (simp add: algebra_simps)
      with tot c0 have lt: "a + b < 2" by simp
      from fl64_error[OF ab0 lt] have "fadd a b \<le> a + b + c" by (simp add: fadd_def c)
      with s have u: "fadd a b \<le> sum_mset (A + B) + (real (size (A + B)) - 1) * c"
        by (simp add: algebra_simps)
      have "binary64 (fadd a b)" unfolding fadd_def using ab0 by (rule binary64_fl64)
      moreover have "0 \<le> fadd a b" unfolding fadd_def using ab0 by (rule fl64_nonneg)
      ultimately show ?thesis using u neA by simp
    qed
  qed
qed

lemma filter_sum_le:
  fixes g :: "nat \<Rightarrow> real"
  assumes "\<forall>k\<in>set xs. 0 \<le> g k"
  shows "sum_list (map g (filter P xs)) \<le> sum_list (map g xs)"
  using assms by (induction xs) (auto intro: add_increasing)

lemma sum_list_le:
  fixes f :: "nat \<Rightarrow> real"
  assumes "\<forall>k\<in>set xs. f k \<le> g k"
  shows "sum_list (map f xs) \<le> sum_list (map g xs)"
  using assms by (induction xs) (auto intro: add_mono)

lemma sum_list_shift:
  fixes f :: "nat \<Rightarrow> real"
  shows "sum_list (map (\<lambda>k. f k + a) xs) = sum_list (map f xs) + real (length xs) * a"
  by (induction xs) (simp_all add: algebra_simps)

lemma ap_exact_bound:
  assumes ok: "np_sum_ok np_sum" and len: "length prec = length rec"
    and rec: "\<forall>r\<in>set rec. 0 \<le> r \<and> r \<le> 1" and mono: "sorted rec"
    and prec: "\<forall>p\<in>set prec. 0 \<le> p \<and> p \<le> 1" and small: "length rec < 2 ^ 51"
  shows "\<exists>ap. ap_exact np_sum (map Num rec) prec = Inr (Num ap) \<and> 0 \<le> ap
           \<and> ap \<le> 1 + 3 * real (length rec + 1) / 2 ^ 53"
proof -
  define c :: real where "c = 1 / 2 ^ 53"
  have c0: "0 < c" by (simp add: c_def)
  define n where "n = length rec"
  define m where "m = [0] @ rec @ [1]"
  define mpre where "mpre = envelope (length ([0] @ prec @ [0]) - 1) ([0] @ prec @ [0])"
  have lm: "length m = n + 2" by (simp add: m_def n_def)
  have lpre: "length mpre = n + 2" unfolding mpre_def envelope_length by (simp add: len n_def)
  have "\<forall>x\<in>set ([0] @ prec @ [0]). 0 \<le> x \<and> x \<le> 1" using prec by auto
  then have "\<forall>x\<in>set mpre. 0 \<le> x \<and> x \<le> 1"
    unfolding mpre_def by (rule envelope_unit) simp
  then have pre_unit: "0 \<le> mpre ! k \<and> mpre ! k \<le> 1" if "k < n + 2" for k
    using that lpre nth_mem[of k mpre] by simp
  have "sorted m" using rec mono by (auto simp: m_def sorted_append)
  then have step: "m ! k \<le> m ! Suc k" if "k < n + 1" for k
    using that lm by (simp add: sorted_iff_nth_Suc)
  have "\<forall>x\<in>set m. 0 \<le> x \<and> x \<le> 1" using rec by (auto simp: m_def)
  then have m_unit: "0 \<le> m ! k \<and> m ! k \<le> 1" if "k < n + 2" for k
    using that lm nth_mem[of k m] by simp
  define d where "d k = m ! Suc k - m ! k" for k
  define t where "t k = fmul (fsub (m ! Suc k) (m ! k)) (mpre ! Suc k)" for k
  define idx where "idx = filter (\<lambda>i. m ! Suc i \<noteq> m ! i) [0..<n + 1]"
  have idx_lt: "k < n + 1" if "k \<in> set idx" for k
  proof -
    from that have "k \<in> set [0..<n + 1]" unfolding idx_def by (simp del: upt_Suc)
    then show ?thesis by (simp only: set_upt atLeastLessThan_iff)
  qed
  have ch: "changes (map Num m) = idx"
    unfolding changes_def idx_def by (rule filter_cong) (auto simp: ne64_def lm simp del: upt_Suc)
  have mrec_eq: "[Num 0] @ map Num rec @ [Num 1] = map Num m" by (simp add: m_def)
  have terms: "map (\<lambda>k. mul64 (sub64 (map Num m ! Suc k) (map Num m ! k)) (mpre ! Suc k)) idx
      = map Num (map t idx)"
  proof -
    have "mul64 (sub64 (map Num m ! Suc k) (map Num m ! k)) (mpre ! Suc k) = Num (t k)"
      if "k \<in> set idx" for k
    proof -
      from idx_lt[OF that] have "k < length m" "Suc k < length m" by (simp_all add: lm)
      then show ?thesis by (simp add: t_def)
    qed
    then show ?thesis by simp
  qed
  have noidx: "\<not> list_ex (\<lambda>k. length mpre \<le> Suc k) idx"
    using idx_lt by (fastforce simp: list_ex_iff lpre)
  have "ap_exact np_sum (map Num rec) prec =
      (if list_ex (\<lambda>k. length mpre \<le> Suc k) (changes (map Num m)) then Inl IndexError
       else Inr (sum64 np_sum
          (map (\<lambda>k. mul64 (sub64 (map Num m ! Suc k) (map Num m ! k)) (mpre ! Suc k))
             (changes (map Num m)))))"
    unfolding ap_exact_def Let_def mrec_eq mpre_def by (rule refl)
  also have "\<dots> = Inr (sum64 np_sum (map Num (map t idx)))"
    using noidx by (simp only: ch terms if_False)
  finally have val: "ap_exact np_sum (map Num rec) prec = Inr (Num (np_sum (map t idx)))"
    by (simp only: sum64_Num)
  have tb: "0 \<le> t k \<and> t k \<le> d k + 2 * c \<and> binary64 (t k)" if k: "k < n + 1" for k
  proof -
    from step[OF k] have d0: "0 \<le> d k" by (simp add: d_def)
    from m_unit[of k] m_unit[of "Suc k"] k have d1: "d k \<le> 1" by (simp add: d_def)
    from d1 have d2: "d k < 2" by simp
    have f0: "0 \<le> fl64 (d k)" using d0 by (rule fl64_nonneg)
    from fl64_error[OF d0 d2] have f1: "fl64 (d k) \<le> d k + c" by (simp add: c_def)
    from fl64_mono[OF d0 d1] have f2: "fl64 (d k) \<le> 1" by (simp add: fl64_one)
    from pre_unit[of "Suc k"] k have p: "0 \<le> mpre ! Suc k" "mpre ! Suc k \<le> 1" by simp_all
    from f0 p have q0: "0 \<le> fl64 (d k) * mpre ! Suc k" by simp
    from f0 p have q1: "fl64 (d k) * mpre ! Suc k \<le> fl64 (d k)" by (simp add: mult_left_le)
    with f2 have q2: "fl64 (d k) * mpre ! Suc k < 2" by simp
    have tk: "t k = fl64 (fl64 (d k) * mpre ! Suc k)" by (simp add: t_def fmul_def fsub_def d_def)
    from fl64_error[OF q0 q2] have "t k \<le> fl64 (d k) * mpre ! Suc k + c" by (simp add: tk c_def)
    with q1 f1 have "t k \<le> d k + 2 * c" by simp
    moreover have "0 \<le> t k" unfolding tk using q0 by (rule fl64_nonneg)
    moreover have "binary64 (t k)" unfolding tk using q0 by (rule binary64_fl64)
    ultimately show ?thesis by simp
  qed
  define X where "X = real (n + 1) * c"
  have S: "sum_list (map t idx) \<le> 1 + 2 * X"
  proof -
    have "sum_list (map t idx) \<le> sum_list (map (\<lambda>k. d k + 2 * c) idx)"
      by (rule sum_list_le) (use tb idx_lt in blast)
    also have "\<dots> \<le> sum_list (map (\<lambda>k. d k + 2 * c) [0..<n + 1])"
      unfolding idx_def
    proof (rule filter_sum_le)
      show "\<forall>k\<in>set [0..<n + 1]. 0 \<le> d k + 2 * c"
        using step c0 by (auto simp: d_def simp del: upt_Suc intro: add_nonneg_nonneg)
    qed
    also have "\<dots> = sum_list (map d [0..<n + 1]) + real (length [0..<n + 1]) * (2 * c)"
      by (rule sum_list_shift)
    also have "sum_list (map d [0..<n + 1]) = m ! (n + 1) - m ! 0"
      unfolding d_def by (rule sum_list_telescope)
    also have "m ! (n + 1) = 1" by (simp add: m_def n_def nth_append)
    also have "m ! 0 = 0" by (simp add: m_def)
    also have "real (length [0..<n + 1]) * (2 * c) = 2 * X" by (simp add: X_def)
    finally show ?thesis by simp
  qed
  let ?ts = "map t idx"
  define Lc where "Lc = real (length ?ts) * c"
  have L: "length ?ts \<le> n + 1"
    unfolding idx_def using length_filter_le[of "\<lambda>i. m ! Suc i \<noteq> m ! i" "[0..<n + 1]"]
    by (simp del: upt_Suc)
  then have "real (length ?ts) \<le> real (n + 1)" by (simp only: of_nat_le_iff)
  with c0 have LX: "Lc \<le> X" unfolding Lc_def X_def by (simp only: mult_le_cancel_right_pos)
  have Lc0: "0 \<le> Lc" unfolding Lc_def using c0 by simp
  have bin: "\<forall>x\<in>set ?ts. binary64 x" using tb idx_lt by auto
  with ok have r: "rsum (mset ?ts) (np_sum ?ts)" unfolding np_sum_ok_def by blast
  have el: "\<forall>x\<in>#mset ?ts. 0 \<le> x \<and> binary64 x" using tb idx_lt by auto
  from small have "n + 1 \<le> 2 ^ 51" unfolding n_def by simp
  then have "real (n + 1) \<le> real (2 ^ 51)" by (simp only: of_nat_le_iff)
  then have "real (n + 1) \<le> 2 ^ 51" by simp
  with c0 have "real (n + 1) * c \<le> 2 ^ 51 * c" by (simp only: mult_le_cancel_right_pos)
  also have "2 ^ 51 * c = 1 / 4" by (simp add: c_def)
  finally have X4: "X \<le> 1 / 4" by (simp only: X_def)
  have sm: "sum_mset (mset ?ts) = sum_list ?ts" by (rule sum_mset_sum_list)
  have sz: "real (size (mset ?ts)) * c = Lc" by (simp add: Lc_def)
  from S LX X4 have "sum_list ?ts + Lc < 2" by simp
  then have pre: "sum_mset (mset ?ts) + real (size (mset ?ts)) * c < 2" by (simp only: sm sz)
  have cc: "c = 1 / 2 ^ 53" by (rule c_def)
  from rsum_bound[OF r cc el pre]
  have v0: "0 \<le> np_sum ?ts" and ve: "mset ?ts = {#} \<longrightarrow> np_sum ?ts = 0"
    and vn: "mset ?ts \<noteq> {#} \<longrightarrow> np_sum ?ts \<le> sum_mset (mset ?ts)
               + (real (size (mset ?ts)) - 1) * c" by blast+
  have X0: "0 \<le> X" unfolding X_def using c0 by simp
  have vb: "np_sum ?ts \<le> 1 + 3 * X"
  proof (cases "mset ?ts = {#}")
    case True
    with ve X0 show ?thesis by simp
  next
    case False
    with vn have "np_sum ?ts \<le> sum_mset (mset ?ts) + (real (size (mset ?ts)) - 1) * c"
      by blast
    also have "(real (size (mset ?ts)) - 1) * c = Lc - c"
      by (simp only: left_diff_distrib sz; simp)
    finally have "np_sum ?ts \<le> sum_list ?ts + (Lc - c)" by (simp only: sm)
    with S LX c0 show ?thesis by simp
  qed
  have "3 * X = 3 * real (length rec + 1) / 2 ^ 53"
    by (simp add: X_def c_def n_def)
  with vb have "np_sum ?ts \<le> 1 + 3 * real (length rec + 1) / 2 ^ 53" by (simp only:)
  with val v0 show ?thesis by (intro exI[of _ "np_sum ?ts"] conjI)
qed



lemma voc_ap_07_bounds:
  assumes "length prec = length rec" and "\<forall>p\<in>set prec. 0 \<le> p \<and> p \<le> 1"
  shows "\<exists>ap. voc_ap np_sum rec prec True = Inr (Num ap) \<and> 0 \<le> ap \<and> ap \<le> 1 + 1 / 2 ^ 52"
proof -
  from voc_ap_07_binary64_bounds[OF assms] obtain ap where
    "voc_ap_07_binary64 rec prec = Inr ap" "0 \<le> ap" "ap \<le> 1 + 1 / 2 ^ 52" by blast
  then show ?thesis by (intro exI[of _ ap]) (simp add: voc_ap_def)
qed

lemma voc_ap_exact_bounds:
  assumes "np_sum_ok np_sum" and "length prec = length rec"
    and "\<forall>r\<in>set rec. 0 \<le> r \<and> r \<le> 1" and "sorted rec"
    and "\<forall>p\<in>set prec. 0 \<le> p \<and> p \<le> 1" and "length rec < 2 ^ 51"
  shows "\<exists>ap. voc_ap np_sum (map Num rec) prec False = Inr (Num ap) \<and> 0 \<le> ap
           \<and> ap \<le> 1 + 3 * real (length rec + 1) / 2 ^ 53"
  using ap_exact_bound[OF assms] by (simp add: voc_ap_def)


text \<open>
  Claim C7, as amended. For recall and precision arrays of equal length, with recall
  values in \<open>[0, 1]\<close> in non-decreasing order and precision values in \<open>[0, 1]\<close>, \<open>voc_ap\<close>
  returns a number in both modes. In the 11-point mode the number lies in
  \<open>[0, 1 + 2 powi (-52)]\<close>. In the exact-integral mode it lies in
  \<open>[0, 1 + 3 * (n + 1) * 2 powi (-53)]\<close>, where \<open>n\<close> is the length of the arrays (below
  \<open>2 ^ 51\<close>), in whatever order \<open>np.sum\<close> adds the terms.
\<close>

theorem voc_ap_unit_interval:
  assumes "np_sum_ok np_sum" and "length prec = length rec"
    and "\<forall>r\<in>set rec. 0 \<le> r \<and> r \<le> 1" and "sorted rec"
    and "\<forall>p\<in>set prec. 0 \<le> p \<and> p \<le> 1" and "length rec < 2 ^ 51"
  shows "(\<exists>ap. voc_ap np_sum (map Num rec) prec True = Inr (Num ap) \<and> 0 \<le> ap
            \<and> ap \<le> 1 + 1 / 2 ^ 52)
       \<and> (\<exists>ap. voc_ap np_sum (map Num rec) prec False = Inr (Num ap) \<and> 0 \<le> ap
            \<and> ap \<le> 1 + 3 * real (length rec + 1) / 2 ^ 53)"
proof (intro conjI)
  from assms(2) have l: "length prec = length (map Num rec)" by simp
  from voc_ap_07_bounds[OF l assms(5)]
  show "\<exists>ap. voc_ap np_sum (map Num rec) prec True = Inr (Num ap) \<and> 0 \<le> ap
            \<and> ap \<le> 1 + 1 / 2 ^ 52" .
  show "\<exists>ap. voc_ap np_sum (map Num rec) prec False = Inr (Num ap) \<and> 0 \<le> ap
            \<and> ap \<le> 1 + 3 * real (length rec + 1) / 2 ^ 53"
    by (rule voc_ap_exact_bounds[OF assms])
qed

theorem voc_ap_unit_interval_witness:
  "np_sum_ok np_sum_seq
   \<and> length [1, 1/2 :: real] = length [1/2, 1 :: real]
   \<and> sorted [1/2, 1 :: real]
   \<and> length [1/2, 1 :: real] < 2 ^ 51
   \<and> (\<exists>ap. voc_ap np_sum_seq (map Num [1/2, 1]) [1, 1/2] True = Inr (Num ap) \<and> 0 \<le> ap
         \<and> ap \<le> 1 + 1 / 2 ^ 52)
   \<and> (\<exists>ap. voc_ap np_sum_seq (map Num [1/2, 1]) [1, 1/2] False = Inr (Num ap) \<and> 0 \<le> ap
         \<and> ap \<le> 1 + 3 * real (length [1/2, 1 :: real] + 1) / 2 ^ 53)"
proof -
  have a: "length [1, 1/2 :: real] = length [1/2, 1 :: real]" by simp
  have b: "\<forall>r\<in>set [1/2, 1 :: real]. 0 \<le> r \<and> r \<le> 1" by simp
  have c: "sorted [1/2, 1 :: real]" by simp
  have d: "\<forall>p\<in>set [1, 1/2 :: real]. 0 \<le> p \<and> p \<le> 1" by simp
  have e: "length [1/2, 1 :: real] < 2 ^ 51" by simp
  from voc_ap_unit_interval[OF np_sum_seq_ok a b c d e] np_sum_seq_ok a c e
  show ?thesis by blast
qed

text \<open>
  The bound \<open>1\<close> fails in the 11-point mode: for recall \<open>[1]\<close> and precision \<open>[1]\<close> the
  eleven rounded additions of the binary64 number nearest to \<open>1/11\<close> end at
  \<open>1 + 2 powi (-52)\<close>, that is \<open>1.0000000000000002\<close>.
\<close>

theorem voc_ap_07_binary64_exceeds_one:
  "length [1 :: real] = length [1 :: real] \<and> sorted [1 :: real]
   \<and> (0 :: real) \<le> 1 \<and> (1 :: real) \<le> 1
   \<and> voc_ap np_sum_seq (map Num [1]) [1] True
        = Inr (Num (4503599627370497 / 4503599627370496))
   \<and> (1 :: real) < 4503599627370497 / 4503599627370496"
  using voc_ap_07_binary64_ones by (simp add: voc_ap_def)

text \<open>
  In the exact-integral mode the bound \<open>1\<close> depends on the order in which \<open>np.sum\<close> adds.
  For the recall values \<open>7/77, 10/77, 18/77, 19/77, 22/77, 24/77, 36/77, 1\<close> (as binary64
  numbers) with precision \<open>1\<close> throughout, the eight terms add up to \<open>1\<close> from left to
  right and to \<open>1 + 2 powi (-52)\<close> in the order of the pairwise summation.
\<close>

lemma pairwise_example_diffs:
  "fsub (3275345183542179 / 36028797018963968) (0) = 3275345183542179 / 36028797018963968"
  "fsub (2339532273958699 / 18014398509481984) (3275345183542179 / 36028797018963968) = 1403719364375219 / 36028797018963968"
  "fsub (8422316186251317 / 36028797018963968) (2339532273958699 / 18014398509481984) = 3743251638333919 / 36028797018963968"
  "fsub (8890222641043057 / 36028797018963968) (8422316186251317 / 36028797018963968) = 116976613697935 / 9007199254740992"
  "fsub (2573485501354569 / 9007199254740992) (8890222641043057 / 36028797018963968) = 1403719364375219 / 36028797018963968"
  "fsub (2807438728750439 / 9007199254740992) (2573485501354569 / 9007199254740992) = 116976613697935 / 4503599627370496"
  "fsub (8422316186251317 / 18014398509481984) (2807438728750439 / 9007199254740992) = 2807438728750439 / 18014398509481984"
  "fsub (1) (8422316186251317 / 18014398509481984) = 2398020580807667 / 4503599627370496"
  by (simp_all add: fsub_def fl64_eval)

lemma pairwise_example_products:
  "fmul (3275345183542179 / 36028797018963968) 1 = 3275345183542179 / 36028797018963968"
  "fmul (1403719364375219 / 36028797018963968) 1 = 1403719364375219 / 36028797018963968"
  "fmul (3743251638333919 / 36028797018963968) 1 = 3743251638333919 / 36028797018963968"
  "fmul (116976613697935 / 9007199254740992) 1 = 116976613697935 / 9007199254740992"
  "fmul (1403719364375219 / 36028797018963968) 1 = 1403719364375219 / 36028797018963968"
  "fmul (116976613697935 / 4503599627370496) 1 = 116976613697935 / 4503599627370496"
  "fmul (2807438728750439 / 18014398509481984) 1 = 2807438728750439 / 18014398509481984"
  "fmul (2398020580807667 / 4503599627370496) 1 = 2398020580807667 / 4503599627370496"
  by (simp_all add: fmul_def fl64_eval)

lemma pairwise_example_sums:
  "fadd (3275345183542179 / 36028797018963968) (1403719364375219 / 36028797018963968) = 2339532273958699 / 18014398509481984"
  "fadd (3743251638333919 / 36028797018963968) (116976613697935 / 9007199254740992) = 4211158093125659 / 36028797018963968"
  "fadd (1403719364375219 / 36028797018963968) (116976613697935 / 4503599627370496) = 2339532273958699 / 36028797018963968"
  "fadd (2807438728750439 / 18014398509481984) (2398020580807667 / 4503599627370496) = 3099880262995277 / 4503599627370496"
  "fadd (2339532273958699 / 18014398509481984) (4211158093125659 / 36028797018963968) = 8890222641043057 / 36028797018963968"
  "fadd (2339532273958699 / 36028797018963968) (3099880262995277 / 4503599627370496) = 6784643594480229 / 9007199254740992"
  "fadd (8890222641043057 / 36028797018963968) (6784643594480229 / 9007199254740992) = 4503599627370497 / 4503599627370496"
  by (simp_all add: fadd_def fl64_eval)


lemma pairwise_example_envelope:
  "envelope 9 [0, 1, 1, 1, 1, 1, 1, 1, 1, 0] = [1, 1, 1, 1, 1, 1, 1, 1, 1, 0 :: real]"
  by (simp add: eval_nat_numeral)

lemma pairwise_example_changes:
  "changes
      [Num 0,
       Num (3275345183542179 / 36028797018963968),
       Num (2339532273958699 / 18014398509481984),
       Num (8422316186251317 / 36028797018963968),
       Num (8890222641043057 / 36028797018963968),
       Num (2573485501354569 / 9007199254740992),
       Num (2807438728750439 / 9007199254740992),
       Num (8422316186251317 / 18014398509481984),
       Num 1,
       Num 1]
   = [0, 1, 2, 3, 4, 5, 6, 7]"
  by (simp add: changes_def ne64_def upt_rec eval_nat_numeral)

lemma voc_ap_exact_pairwise_exceeds_one:
  "np_sum_ok np_sum_pairwise
   \<and> voc_ap np_sum_pairwise
       [Num (3275345183542179 / 36028797018963968),
        Num (2339532273958699 / 18014398509481984),
        Num (8422316186251317 / 36028797018963968),
        Num (8890222641043057 / 36028797018963968),
        Num (2573485501354569 / 9007199254740992),
        Num (2807438728750439 / 9007199254740992),
        Num (8422316186251317 / 18014398509481984),
        Num 1]
       [1, 1, 1, 1, 1, 1, 1, 1] False
     = Inr (Num (4503599627370497 / 4503599627370496))"
proof -
  have "ap_exact np_sum_pairwise
       [Num (3275345183542179 / 36028797018963968),
        Num (2339532273958699 / 18014398509481984),
        Num (8422316186251317 / 36028797018963968),
        Num (8890222641043057 / 36028797018963968),
        Num (2573485501354569 / 9007199254740992),
        Num (2807438728750439 / 9007199254740992),
        Num (8422316186251317 / 18014398509481984),
        Num 1]
       [1, 1, 1, 1, 1, 1, 1, 1]
     = Inr (Num (4503599627370497 / 4503599627370496))"
    unfolding ap_exact_def Let_def
    by (simp add: pairwise_example_envelope pairwise_example_changes sum64_def nums_def
        np_sum_pairwise_def pairwise_example_diffs pairwise_example_products
        pairwise_example_sums)
  with np_sum_pairwise_ok show ?thesis by (simp add: voc_ap_def)
qed

section \<open>Properties of the matching pass\<close>

subsection \<open>The scan over the ground-truth boxes of one image\<close>

lemma overlaps_Fin:
  "\<exists>v' i'. overlaps iou bb bs j (Fin v, Some i) = (Fin v', Some i')
     \<and> (\<forall>b\<in>set bs. iou bb b \<le> v') \<and> v \<le> v'
     \<and> (i' = i \<and> v' = v
        \<or> j \<le> i' \<and> i' - j < length bs \<and> iou bb (bs ! (i' - j)) = v' \<and> v < v'
          \<and> (\<forall>k<i' - j. iou bb (bs ! k) < v'))"
proof (induction bs arbitrary: j v i)
  case Nil
  show ?case by simp
next
  case (Cons g bs)
  let ?x = "iou bb g"
  show ?case
  proof (cases "v < ?x")
    case True
    from Cons.IH[of "Suc j" ?x j] obtain v' i' where
      r: "overlaps iou bb bs (Suc j) (Fin ?x, Some j) = (Fin v', Some i')"
      and ub: "\<forall>b\<in>set bs. iou bb b \<le> v'" and le: "?x \<le> v'"
      and d: "i' = j \<and> v' = ?x
        \<or> Suc j \<le> i' \<and> i' - Suc j < length bs \<and> iou bb (bs ! (i' - Suc j)) = v' \<and> ?x < v'
          \<and> (\<forall>k<i' - Suc j. iou bb (bs ! k) < v')"
      by blast
    have e: "overlaps iou bb (g # bs) j (Fin v, Some i) = (Fin v', Some i')"
      using True r by simp
    from d have "j \<le> i' \<and> i' - j < length (g # bs) \<and> iou bb ((g # bs) ! (i' - j)) = v'
          \<and> (\<forall>k<i' - j. iou bb ((g # bs) ! k) < v')"
    proof
      assume "i' = j \<and> v' = ?x"
      then show ?thesis by simp
    next
      assume a: "Suc j \<le> i' \<and> i' - Suc j < length bs \<and> iou bb (bs ! (i' - Suc j)) = v'
          \<and> ?x < v' \<and> (\<forall>k<i' - Suc j. iou bb (bs ! k) < v')"
      then have s: "i' - j = Suc (i' - Suc j)" by arith
      from a show ?thesis unfolding s by (auto simp: nth_Cons split: nat.splits)
    qed
    with e ub le True show ?thesis by auto
  next
    case False
    from Cons.IH[of "Suc j" v i] obtain v' i' where
      r: "overlaps iou bb bs (Suc j) (Fin v, Some i) = (Fin v', Some i')"
      and ub: "\<forall>b\<in>set bs. iou bb b \<le> v'" and le: "v \<le> v'"
      and d: "i' = i \<and> v' = v
        \<or> Suc j \<le> i' \<and> i' - Suc j < length bs \<and> iou bb (bs ! (i' - Suc j)) = v' \<and> v < v'
          \<and> (\<forall>k<i' - Suc j. iou bb (bs ! k) < v')"
      by blast
    have e: "overlaps iou bb (g # bs) j (Fin v, Some i) = (Fin v', Some i')"
      using False r by simp
    from d have "i' = i \<and> v' = v
        \<or> j \<le> i' \<and> i' - j < length (g # bs) \<and> iou bb ((g # bs) ! (i' - j)) = v' \<and> v < v'
          \<and> (\<forall>k<i' - j. iou bb ((g # bs) ! k) < v')"
    proof
      assume "i' = i \<and> v' = v"
      then show ?thesis by simp
    next
      assume a: "Suc j \<le> i' \<and> i' - Suc j < length bs \<and> iou bb (bs ! (i' - Suc j)) = v'
          \<and> v < v' \<and> (\<forall>k<i' - Suc j. iou bb (bs ! k) < v')"
      then have s: "i' - j = Suc (i' - Suc j)" by arith
      from a False show ?thesis unfolding s by (auto simp: nth_Cons split: nat.splits)
    qed
    with e ub le False show ?thesis by auto
  qed
qed

lemma overlaps_first_max:
  assumes "BBGT \<noteq> []"
  shows "\<exists>m jmax. overlaps iou bb BBGT 0 (NegInf, jprev) = (Fin m, Some jmax)
     \<and> jmax < length BBGT \<and> iou bb (BBGT ! jmax) = m
     \<and> (\<forall>k<length BBGT. iou bb (BBGT ! k) \<le> m)
     \<and> (\<forall>k<jmax. iou bb (BBGT ! k) < m)"
proof -
  from assms obtain g bs where B: "BBGT = g # bs" by (cases BBGT) auto
  let ?x = "iou bb g"
  from overlaps_Fin[of iou bb bs "Suc 0" ?x 0] obtain v' i' where
    r: "overlaps iou bb bs (Suc 0) (Fin ?x, Some 0) = (Fin v', Some i')"
    and ub: "\<forall>b\<in>set bs. iou bb b \<le> v'" and le: "?x \<le> v'"
    and d: "i' = 0 \<and> v' = ?x
      \<or> Suc 0 \<le> i' \<and> i' - Suc 0 < length bs \<and> iou bb (bs ! (i' - Suc 0)) = v' \<and> ?x < v'
        \<and> (\<forall>k<i' - Suc 0. iou bb (bs ! k) < v')"
    by blast
  have e: "overlaps iou bb BBGT 0 (NegInf, jprev) = (Fin v', Some i')"
    using r by (simp add: B)
  from ub le have all: "\<forall>k<length BBGT. iou bb (BBGT ! k) \<le> v'"
    by (auto simp: B nth_Cons split: nat.splits)
  from d have "i' < length BBGT \<and> iou bb (BBGT ! i') = v' \<and> (\<forall>k<i'. iou bb (BBGT ! k) < v')"
  proof
    assume "i' = 0 \<and> v' = ?x"
    then show ?thesis by (simp add: B)
  next
    assume a: "Suc 0 \<le> i' \<and> i' - Suc 0 < length bs \<and> iou bb (bs ! (i' - Suc 0)) = v'
        \<and> ?x < v' \<and> (\<forall>k<i' - Suc 0. iou bb (bs ! k) < v')"
    then obtain n where n: "i' = Suc n" by (cases i') auto
    from a show ?thesis unfolding n B by (auto simp: nth_Cons split: nat.splits)
  qed
  with e all show ?thesis by blast
qed

lemma overlaps_Max:
  assumes "BBGT \<noteq> []"
  shows "fst (overlaps iou bb BBGT 0 (NegInf, jprev)) = Fin (Max (iou bb ` set BBGT))"
proof -
  from overlaps_first_max[OF assms, of iou bb jprev] obtain m jmax where
    e: "overlaps iou bb BBGT 0 (NegInf, jprev) = (Fin m, Some jmax)"
    and j: "jmax < length BBGT" "iou bb (BBGT ! jmax) = m"
    and ub: "\<forall>k<length BBGT. iou bb (BBGT ! k) \<le> m"
    by blast
  have "Max (iou bb ` set BBGT) = m"
  proof (rule Max_eqI)
    show "finite (iou bb ` set BBGT)" by simp
    show "y \<le> m" if "y \<in> iou bb ` set BBGT" for y
      using that ub by (auto simp: in_set_conv_nth)
    show "m \<in> iou bb ` set BBGT" using j by (metis imageI nth_mem)
  qed
  with e show ?thesis by simp
qed


text \<open>
  Claim C5. For a detection scanned against a non-empty sequence of ground-truth boxes,
  the scan ends with \<open>ovmax\<close> equal to the largest IoU and with \<open>jmax\<close> equal to the
  first index that attains it: every box before \<open>jmax\<close> has a strictly smaller IoU, so
  among boxes that tie for the maximum the earliest one is chosen. The value of \<open>jmax\<close>
  left by an earlier detection plays no role.
\<close>

theorem overlaps_picks_first_maximum:
  assumes "BBGT \<noteq> []"
  shows "\<exists>jmax. overlaps get_iou_cc bb BBGT 0 (NegInf, jprev)
            = (Fin (Max (get_iou_cc bb ` set BBGT)), Some jmax)
     \<and> jmax < length BBGT
     \<and> get_iou_cc bb (BBGT ! jmax) = Max (get_iou_cc bb ` set BBGT)
     \<and> (\<forall>k<jmax. get_iou_cc bb (BBGT ! k) < Max (get_iou_cc bb ` set BBGT))"
proof -
  from overlaps_first_max[OF assms, of get_iou_cc bb jprev] obtain m jmax where
    e: "overlaps get_iou_cc bb BBGT 0 (NegInf, jprev) = (Fin m, Some jmax)"
    and r: "jmax < length BBGT" "get_iou_cc bb (BBGT ! jmax) = m"
      "\<forall>k<jmax. get_iou_cc bb (BBGT ! k) < m"
    by blast
  from overlaps_Max[OF assms, of get_iou_cc bb jprev] e
  have "m = Max (get_iou_cc bb ` set BBGT)" by simp
  with e r show ?thesis by (intro exI[of _ jmax]) simp
qed

theorem overlaps_picks_first_maximum_witness:
  "[3, 1, 2 :: nat] \<noteq> []
   \<and> overlaps (\<lambda>a b. if b = 3 then 1/2 else 9/10) (0::nat) [3, 1, 2 :: nat] 0 (NegInf, None)
       = (Fin (9/10), Some 1)"
  using overlaps_picks_first_maximum[of "[3, 1, 2 :: nat]" "\<lambda>a b. if b = 3 then 1/2 else 9/10" "0::nat" None]
  by simp

subsection \<open>The threshold test\<close>

lemma match_det_below:
  assumes "\<not> (BBGT \<noteq> [] \<and> ovthresh < Max (get_iou_cc bb ` set BBGT))"
  shows "\<exists>jmax. match_det get_iou_cc ovthresh d bb (Some (BoxList BBGT)) R_det (tp, fp, jprev)
           = (None, Inr (tp, fp[d := 1], jmax))"
proof (cases "BBGT = []")
  case True
  then show ?thesis by (simp add: match_det_def)
next
  case False
  obtain ovmax jmax where o: "overlaps get_iou_cc bb BBGT 0 (NegInf, jprev) = (ovmax, jmax)"
    by (cases "overlaps get_iou_cc bb BBGT 0 (NegInf, jprev)")
  with overlaps_Max[OF False, of get_iou_cc bb jprev]
  have "ovmax = Fin (Max (get_iou_cc bb ` set BBGT))" by simp
  with assms False have "\<not> ovl_gt ovmax ovthresh" by simp
  with False o show ?thesis by (simp add: match_det_def)
qed

lemma mark_det_below:
  assumes "class_recs img_id = Some R" and "load s (bbox R) = Some (BoxList BBGT)"
    and "\<not> (BBGT \<noteq> [] \<and> ovthresh < Max (get_iou_cc bb ` set BBGT))"
  shows "\<exists>jmax. mark_det get_iou_cc class_recs ovthresh d img_id bb (s, tp, fp, jprev)
           = (s, Inr (tp, fp[d := 1], jmax))"
proof -
  from assms(3) match_det_below[where get_iou_cc=get_iou_cc and bb=bb and BBGT=BBGT
      and ovthresh=ovthresh and d=d and R_det="load s (det R)" and tp=tp and fp=fp
      and jprev=jprev]
  obtain jmax where
    "match_det get_iou_cc ovthresh d bb (Some (BoxList BBGT)) (load s (det R)) (tp, fp, jprev)
       = (None, Inr (tp, fp[d := 1], jmax))" by blast
  with assms(1,2) show ?thesis by (simp add: mark_det_def)
qed


text \<open>
  Claim C3. The comparison with the IoU threshold is strict. A detection whose largest
  IoU against the ground-truth boxes of its image is exactly the threshold is marked as a
  false positive: \<open>fp[d]\<close> is set, \<open>tp\<close> and the store stay as they were. Conversely, an
  iteration of the matching loop that changes \<open>tp\<close> had ground-truth boxes to compare
  with and a largest IoU strictly above the threshold.
\<close>

theorem mark_det_threshold_strict:
  assumes "class_recs img_id = Some R" and "load s (bbox R) = Some (BoxList BBGT)"
  shows "(BBGT \<noteq> [] \<and> Max (get_iou_cc bb ` set BBGT) = ovthresh \<longrightarrow>
            (\<exists>jmax. mark_det get_iou_cc class_recs ovthresh d img_id bb (s, tp, fp, jprev)
                      = (s, Inr (tp, fp[d := 1], jmax))))
       \<and> (\<forall>s' tp' fp' jmax.
            mark_det get_iou_cc class_recs ovthresh d img_id bb (s, tp, fp, jprev)
              = (s', Inr (tp', fp', jmax)) \<and> tp' \<noteq> tp \<longrightarrow>
            BBGT \<noteq> [] \<and> ovthresh < Max (get_iou_cc bb ` set BBGT))"
proof (intro conjI allI impI)
  assume "BBGT \<noteq> [] \<and> Max (get_iou_cc bb ` set BBGT) = ovthresh"
  then have "\<not> (BBGT \<noteq> [] \<and> ovthresh < Max (get_iou_cc bb ` set BBGT))" by simp
  with assms mark_det_below[where get_iou_cc=get_iou_cc and bb=bb and BBGT=BBGT
      and ovthresh=ovthresh and class_recs=class_recs and img_id=img_id and R=R and s=s]
  show "\<exists>jmax. mark_det get_iou_cc class_recs ovthresh d img_id bb (s, tp, fp, jprev)
                      = (s, Inr (tp, fp[d := 1], jmax))" by blast
next
  fix s' tp' fp' jmax
  assume a: "mark_det get_iou_cc class_recs ovthresh d img_id bb (s, tp, fp, jprev)
              = (s', Inr (tp', fp', jmax)) \<and> tp' \<noteq> tp"
  have "BBGT \<noteq> [] \<and> ovthresh < Max (get_iou_cc bb ` set BBGT)"
  proof (rule ccontr)
    assume "\<not> (BBGT \<noteq> [] \<and> ovthresh < Max (get_iou_cc bb ` set BBGT))"
    with assms mark_det_below[where get_iou_cc=get_iou_cc and bb=bb and BBGT=BBGT
        and ovthresh=ovthresh and class_recs=class_recs and img_id=img_id and R=R and s=s
        and d=d and tp=tp and fp=fp and jprev=jprev]
    obtain j where "mark_det get_iou_cc class_recs ovthresh d img_id bb (s, tp, fp, jprev)
           = (s, Inr (tp, fp[d := 1], j))" by blast
    with a show False by auto
  qed
  then show "BBGT \<noteq> []" "ovthresh < Max (get_iou_cc bb ` set BBGT)" by simp_all
qed

theorem mark_det_threshold_strict_witness:
  "[0::nat \<mapsto> \<lparr>bbox = 0, det = 1\<rparr>] 0 = Some \<lparr>bbox = 0, det = 1\<rparr>
   \<and> load [BoxList [7::nat], FlagList [False]] (bbox \<lparr>bbox = 0, det = 1\<rparr>) = Some (BoxList [7])
   \<and> [7::nat] \<noteq> [] \<and> Max ((\<lambda>b. 1/4 :: real) ` set [7::nat]) = 1/4
   \<and> mark_det (\<lambda>a b. 1/4) [0::nat \<mapsto> \<lparr>bbox = 0, det = 1\<rparr>] (1/4) 0 0 (5::nat)
        ([BoxList [7], FlagList [False]], [0], [0], None)
       = ([BoxList [7], FlagList [False]], Inr ([0], [1], Some 0))"
  using mark_det_threshold_strict[of "[0::nat \<mapsto> \<lparr>bbox = 0, det = 1\<rparr>]" 0 "\<lparr>bbox = 0, det = 1\<rparr>"
      "[BoxList [7::nat], FlagList [False]]" "[7]" "\<lambda>a b. 1/4" 5 "1/4" 0 "[0]" "[0]" None]
  by (simp add: load_def mark_det_def match_det_def)

subsection \<open>True and false positives, and the cumulative counts\<close>

lemma match_det_marks:
  assumes "match_det get_iou_cc ovthresh d bb R_bbox R_det (tp, fp, jprev) = (w, Inr (tp', fp', jmax))"
  shows "tp' = tp[d := 1] \<and> fp' = fp \<or> tp' = tp \<and> fp' = fp[d := 1]"
  using assms
  by (auto simp: match_det_def split: option.splits obj.splits if_splits prod.splits)

lemma mark_det_marks:
  assumes "mark_det get_iou_cc class_recs ovthresh d img_id bb (s, tp, fp, jprev)
             = (s', Inr (tp', fp', jmax))"
  shows "tp' = tp[d := 1] \<and> fp' = fp \<or> tp' = tp \<and> fp' = fp[d := 1]"
proof (cases "class_recs img_id")
  case None
  with assms show ?thesis by (simp add: mark_det_def)
next
  case (Some R)
  obtain w r where
    m: "match_det get_iou_cc ovthresh d bb (load s (bbox R)) (load s (det R)) (tp, fp, jprev)
          = (w, r)"
    by (cases "match_det get_iou_cc ovthresh d bb (load s (bbox R)) (load s (det R))
          (tp, fp, jprev)")
  with assms Some have "r = Inr (tp', fp', jmax)"
    by (cases w) (simp_all add: mark_det_def)
  with m have
    "match_det get_iou_cc ovthresh d bb (load s (bbox R)) (load s (det R)) (tp, fp, jprev)
       = (w, Inr (tp', fp', jmax))" by simp
  then show ?thesis by (rule match_det_marks)
qed

lemma mark_all_marks:
  assumes "mark_all get_iou_cc class_recs ovthresh dets d (s, tp, fp, jprev) = (s', Inr (tp', fp'))"
    and "length tp = n" and "length fp = n" and "d + length dets \<le> n"
    and "\<forall>i<n. d \<le> i \<longrightarrow> tp ! i = 0 \<and> fp ! i = 0"
  shows "length tp' = n \<and> length fp' = n
       \<and> (\<forall>i<d. tp' ! i = tp ! i \<and> fp' ! i = fp ! i)
       \<and> (\<forall>i<d + length dets. d \<le> i \<longrightarrow> marked tp' fp' i)"
  using assms
proof (induction dets arbitrary: d s tp fp jprev)
  case Nil
  then show ?case by simp
next
  case (Cons x dets)
  obtain img_id bb where x: "x = (img_id, bb)" by (cases x)
  from Cons.prems(1) obtain s1 tp1 fp1 j1 where
    m: "mark_det get_iou_cc class_recs ovthresh d img_id bb (s, tp, fp, jprev)
          = (s1, Inr (tp1, fp1, j1))"
    and r: "mark_all get_iou_cc class_recs ovthresh dets (Suc d) (s1, tp1, fp1, j1)
          = (s', Inr (tp', fp'))"
    by (auto simp: x split: prod.splits sum.splits)
  from mark_det_marks[OF m]
  have c: "tp1 = tp[d := 1] \<and> fp1 = fp \<or> tp1 = tp \<and> fp1 = fp[d := 1]" .
  from Cons.prems have dn: "d < n" by simp
  from c Cons.prems(2,3) have l: "length tp1 = n" "length fp1 = n" by auto
  from Cons.prems(4) have b: "Suc d + length dets \<le> n" by simp
  from c Cons.prems(5) have z: "\<forall>i<n. Suc d \<le> i \<longrightarrow> tp1 ! i = 0 \<and> fp1 ! i = 0" by auto
  from Cons.IH[OF r l b z]
  have ih: "length tp' = n" "length fp' = n"
    "\<forall>i<Suc d. tp' ! i = tp1 ! i \<and> fp' ! i = fp1 ! i"
    "\<forall>i<Suc d + length dets. Suc d \<le> i \<longrightarrow> marked tp' fp' i" by simp_all
  from c dn Cons.prems(2,3,5) have md: "marked tp1 fp1 d" by (auto simp: marked_def)
  from ih(3) have "tp' ! d = tp1 ! d" "fp' ! d = fp1 ! d" by simp_all
  with md have md': "marked tp' fp' d" by (simp add: marked_def)
  have "\<forall>i<d. tp' ! i = tp ! i \<and> fp' ! i = fp ! i"
  proof (intro allI impI)
    fix i assume i: "i < d"
    with ih(3) have "tp' ! i = tp1 ! i \<and> fp' ! i = fp1 ! i" by simp
    moreover from c i have "tp1 ! i = tp ! i \<and> fp1 ! i = fp ! i" by auto
    ultimately show "tp' ! i = tp ! i \<and> fp' ! i = fp ! i" by simp
  qed
  moreover have "\<forall>i<d + length (x # dets). d \<le> i \<longrightarrow> marked tp' fp' i"
  proof (intro allI impI)
    fix i assume i: "i < d + length (x # dets)" "d \<le> i"
    show "marked tp' fp' i"
    proof (cases "i = d")
      case True
      with md' show ?thesis by simp
    next
      case False
      with i ih(4) show ?thesis by simp
    qed
  qed
  ultimately show ?case using ih(1,2) by simp
qed

lemma length_cumsum_from: "length (cumsum_from acc xs) = length xs"
  by (induction xs arbitrary: acc) simp_all

lemma nth_cumsum_from:
  "i < length xs \<Longrightarrow> cumsum_from acc xs ! i = acc + sum_list (take (Suc i) xs)"
proof (induction xs arbitrary: acc i)
  case Nil
  then show ?case by simp
next
  case (Cons x xs)
  show ?case
  proof (cases i)
    case 0
    then show ?thesis by simp
  next
    case (Suc k)
    with Cons.prems have "k < length xs" by simp
    from Cons.IH[OF this, of "acc + x"] Suc show ?thesis by (simp add: add.assoc)
  qed
qed

lemma sum_list_take_marked:
  assumes "length tp = length fp" and "\<forall>i<length tp. marked tp fp i" and "m \<le> length tp"
  shows "sum_list (take m tp) + sum_list (take m fp) = real m"
  using assms
proof (induction m)
  case 0
  show ?case by simp
next
  case (Suc m)
  then have m: "m < length tp" "m < length fp" by simp_all
  from Suc have ih: "sum_list (take m tp) + sum_list (take m fp) = real m" by simp
  from Suc.prems(2) m have "tp ! m + fp ! m = 1" by (auto simp: marked_def)
  with ih m show ?case by (simp add: take_Suc_conv_app_nth)
qed

lemma eps_le_1: "eps \<le> 1"
  by (simp add: eps_def)


text \<open>
  Claim C8. In the matching pass every detection is marked as exactly one of true
  positive and false positive: when the pass over \<open>dets\<close> returns the arrays \<open>tp\<close> and
  \<open>fp\<close>, each index \<open>i\<close> has \<open>tp[i] = 1, fp[i] = 0\<close> or \<open>tp[i] = 0, fp[i] = 1\<close>. Hence
  the cumulative sums add up to \<open>i + 1\<close>, the guard \<open>np.maximum(tp + fp, eps)\<close> returns
  \<open>tp + fp\<close> itself, the denominator of the precision is not zero, and the precision at
  \<open>i\<close> is the cumulative true-positive count divided by \<open>i + 1\<close> (a binary64 division). The pass starts as
  \<open>eval_det_cls\<close> starts it: at index \<open>0\<close>, with both arrays all zero.
\<close>

theorem mark_all_counts:
  assumes "mark_all get_iou_cc class_recs ovthresh dets 0
             (s, replicate (length dets) 0, replicate (length dets) 0, jprev)
           = (s', Inr (tp, fp))"
    and "i < length dets"
  shows "(tp ! i = 1 \<and> fp ! i = 0 \<or> tp ! i = 0 \<and> fp ! i = 1)
       \<and> cumsum tp ! i + cumsum fp ! i = real (i + 1)
       \<and> max (cumsum tp ! i + cumsum fp ! i) eps = cumsum tp ! i + cumsum fp ! i
       \<and> max (cumsum tp ! i + cumsum fp ! i) eps \<noteq> 0
       \<and> precision (cumsum tp) (cumsum fp) ! i = fdiv (cumsum tp ! i) (real (i + 1))"
proof -
  let ?n = "length dets"
  from mark_all_marks[OF assms(1), of ?n]
  have l: "length tp = ?n" "length fp = ?n" and mk: "\<forall>i<?n. marked tp fp i" by simp_all
  from mk assms(2) have a: "tp ! i = 1 \<and> fp ! i = 0 \<or> tp ! i = 0 \<and> fp ! i = 1"
    by (simp add: marked_def)
  from l mk assms(2) have "sum_list (take (Suc i) tp) + sum_list (take (Suc i) fp) = real (Suc i)"
    by (intro sum_list_take_marked) simp_all
  with l assms(2) have b: "cumsum tp ! i + cumsum fp ! i = real (i + 1)"
    by (simp add: cumsum_def nth_cumsum_from)
  from eps_le_1 have c: "max (real (i + 1)) eps = real (i + 1)" by (simp add: max_def)
  from l assms(2) have "precision (cumsum tp) (cumsum fp) ! i
      = fdiv (cumsum tp ! i) (max (cumsum tp ! i + cumsum fp ! i) eps)"
    by (simp add: precision_def cumsum_def length_cumsum_from)
  with a b c show ?thesis by simp
qed

theorem mark_all_counts_witness:
  "mark_all (\<lambda>a b. if a = b then 1 else 0) [0::nat \<mapsto> \<lparr>bbox = 0, det = 1\<rparr>] (1/4)
       [(0, 7::nat), (0, 7)] 0
       ([BoxList [7], FlagList [False]], replicate (length [(0::nat, 7::nat), (0, 7)]) 0,
        replicate (length [(0::nat, 7::nat), (0, 7)]) 0, None)
     = ([BoxList [7], FlagList [True]], Inr ([1, 0], [0, 1]))
   \<and> 1 < length [(0::nat, 7::nat), (0, 7)]
   \<and> cumsum [1, 0] ! 1 + cumsum [0, 1] ! 1 = real (1 + 1)
   \<and> max (cumsum [1, 0] ! 1 + cumsum [0, 1] ! 1) eps = cumsum [1, 0] ! 1 + cumsum [0, 1] ! 1
   \<and> precision (cumsum [1, 0]) (cumsum [0, 1]) ! 1 = fdiv (cumsum [1, 0] ! 1) (real (1 + 1))"
proof -
  have m: "mark_all (\<lambda>a b. if a = b then 1 else 0) [0::nat \<mapsto> \<lparr>bbox = 0, det = 1\<rparr>] (1/4)
       [(0, 7::nat), (0, 7)] 0
       ([BoxList [7], FlagList [False]], replicate (length [(0::nat, 7::nat), (0, 7)]) 0,
        replicate (length [(0::nat, 7::nat), (0, 7)]) 0, None)
     = ([BoxList [7], FlagList [True]], Inr ([1, 0], [0, 1]))"
    by (simp add: mark_det_def match_det_def load_def numeral_2_eq_2)
  have l: "1 < length [(0::nat, 7::nat), (0, 7)]" by simp
  from mark_all_counts[OF m l] m l show ?thesis by blast
qed

section \<open>Scenarios of the per-class evaluator\<close>




lemma max_eps: "max 1 eps = 1" "max 2 eps = 2"
  by (simp_all add: eps_def max_def)


lemma fdiv_small: "fdiv 1 1 = 1" "fdiv 1 2 = 1/2"
  by (simp_all add: fdiv_def fl64_eval)








section \<open>The store across calls of the evaluator\<close>

subsection \<open>Objects that exist before a call are not written\<close>

lemma prefix_alloc2: "prefix s0 s \<Longrightarrow> prefix s0 (s @ [x, y])"
  by (simp add: prefix_prefix)

lemma prefix_update:
  assumes "prefix s0 s" and "length s0 \<le> a"
  shows "prefix s0 (s[a := v])"
proof -
  from assms(1) obtain zs where "s = s0 @ zs" by (auto simp: prefix_def)
  with assms(2) have "s[a := v] = s0 @ zs[a - length s0 := v]"
    by (simp add: list_update_append)
  then show ?thesis by simp
qed

lemma fresh_recs_upd:
  "fresh_recs n class_recs \<Longrightarrow> n \<le> f \<Longrightarrow> fresh_recs n (class_recs(i \<mapsto> \<lparr>bbox = b, det = f\<rparr>))"
  by (simp add: fresh_recs_def)

lemma construct_gt_frame:
  assumes "construct_gt s gt class_recs npos = (s', r)"
    and "prefix s0 s" and "fresh_recs (length s0) class_recs"
  shows "prefix s0 s' \<and> (\<forall>recs' npos'. r = Inr (recs', npos') \<longrightarrow> fresh_recs (length s0) recs')"
  using assms
proof (induction gt arbitrary: s class_recs npos)
  case Nil
  then show ?case by auto
next
  case (Cons x gt)
  obtain img_id a where x: "x = (img_id, a)" by (cases x)
  show ?case
  proof (cases "\<exists>boxes. load s a = Some (BoxList boxes)")
    case False
    with Cons.prems(1) have "s' = s" "r = Inl TypeError"
      by (auto simp: x split: option.splits obj.splits)
    with Cons.prems(2) show ?thesis by simp
  next
    case True
    then obtain boxes where l: "load s a = Some (BoxList boxes)" by blast
    let ?s2 = "s @ [BoxList boxes, FlagList (replicate (length boxes) False)]"
    let ?recs = "class_recs(img_id \<mapsto> \<lparr>bbox = length s, det = Suc (length s)\<rparr>)"
    from Cons.prems(1) l have
      c: "construct_gt ?s2 gt ?recs (npos + length boxes) = (s', r)"
      by (simp add: x alloc_def)
    from Cons.prems(2) have p: "prefix s0 ?s2" by (rule prefix_alloc2)
    from Cons.prems(2) have "length s0 \<le> Suc (length s)"
      by (auto dest: prefix_length_le)
    with Cons.prems(3) have f: "fresh_recs (length s0) ?recs" by (rule fresh_recs_upd)
    from Cons.IH[OF c p f] show ?thesis .
  qed
qed

lemma pad_recs_frame:
  assumes "pad_recs s gt keys class_recs = (s', recs')"
    and "prefix s0 s" and "fresh_recs (length s0) class_recs"
  shows "prefix s0 s' \<and> fresh_recs (length s0) recs'"
  using assms
proof (induction keys arbitrary: s class_recs)
  case Nil
  then show ?case by simp
next
  case (Cons img_id keys)
  show ?case
  proof (cases "map_of gt img_id = None")
    case False
    with Cons.prems(1) have "pad_recs s gt keys class_recs = (s', recs')" by simp
    from Cons.IH[OF this Cons.prems(2,3)] show ?thesis .
  next
    case True
    let ?s2 = "s @ [BoxList [], FlagList []]"
    let ?recs = "class_recs(img_id \<mapsto> \<lparr>bbox = length s, det = Suc (length s)\<rparr>)"
    from Cons.prems(1) True have c: "pad_recs ?s2 gt keys ?recs = (s', recs')"
      by (simp add: alloc_def)
    from Cons.prems(2) have p: "prefix s0 ?s2" by (rule prefix_alloc2)
    from Cons.prems(2) have "length s0 \<le> Suc (length s)"
      by (auto dest: prefix_length_le)
    with Cons.prems(3) have f: "fresh_recs (length s0) ?recs" by (rule fresh_recs_upd)
    from Cons.IH[OF c p f] show ?thesis .
  qed
qed

lemma mark_det_cases:
  assumes "mark_det get_iou_cc class_recs ovthresh d img_id bb (s, loc) = (s', r)"
  shows "s' = s \<or> (\<exists>R flags. class_recs img_id = Some R \<and> s' = s[det R := FlagList flags])"
proof (cases "class_recs img_id")
  case None
  with assms show ?thesis by (simp add: mark_det_def)
next
  case (Some R)
  obtain w r0 where
    m: "match_det get_iou_cc ovthresh d bb (load s (bbox R)) (load s (det R)) loc = (w, r0)"
    by (cases "match_det get_iou_cc ovthresh d bb (load s (bbox R)) (load s (det R)) loc")
  with assms Some show ?thesis by (cases w) (auto simp: mark_det_def)
qed

lemma mark_det_frame:
  assumes "mark_det get_iou_cc class_recs ovthresh d img_id bb (s, loc) = (s', r)"
    and "prefix s0 s" and "fresh_recs (length s0) class_recs"
  shows "prefix s0 s'"
proof -
  from mark_det_cases[OF assms(1)] show ?thesis
  proof
    assume "s' = s"
    with assms(2) show ?thesis by simp
  next
    assume "\<exists>R flags. class_recs img_id = Some R \<and> s' = s[det R := FlagList flags]"
    then obtain R flags where R: "class_recs img_id = Some R"
      and s': "s' = s[det R := FlagList flags]" by blast
    from assms(3) R have "length s0 \<le> det R" by (simp add: fresh_recs_def)
    with assms(2) show ?thesis unfolding s' by (rule prefix_update)
  qed
qed

lemma mark_all_frame:
  assumes "mark_all get_iou_cc class_recs ovthresh dets d st = (s', r)"
    and "prefix s0 (fst st)" and "fresh_recs (length s0) class_recs"
  shows "prefix s0 s'"
  using assms
proof (induction dets arbitrary: d st)
  case Nil
  then show ?case by (cases st) auto
next
  case (Cons x dets)
  obtain img_id bb where x: "x = (img_id, bb)" by (cases x)
  obtain s loc where st: "st = (s, loc)" by (cases st)
  obtain s1 r1 where
    m: "mark_det get_iou_cc class_recs ovthresh d img_id bb (s, loc) = (s1, r1)"
    by (cases "mark_det get_iou_cc class_recs ovthresh d img_id bb (s, loc)")
  from Cons.prems(2) have "prefix s0 s" by (simp add: st)
  from mark_det_frame[OF m this Cons.prems(3)] have p1: "prefix s0 s1" .
  show ?case
  proof (cases r1)
    case (Inl e)
    with Cons.prems(1) m have "s' = s1" by (simp add: x st)
    with p1 show ?thesis by simp
  next
    case (Inr loc1)
    with Cons.prems(1) m have
      "mark_all get_iou_cc class_recs ovthresh dets (Suc d) (s1, loc1) = (s', r)"
      by (simp add: x st)
    from Cons.IH[OF this _ Cons.prems(3)] p1 show ?thesis by simp
  qed
qed

lemma match_pass_prefix:
  assumes "match_pass argsort get_iou_cc s pred gt ovthresh = (s', out)"
  shows "prefix s s'"
proof -
  obtain s1 r1 where c: "construct_gt s gt Map.empty 0 = (s1, r1)"
    by (cases "construct_gt s gt Map.empty 0")
  have f0: "fresh_recs (length s) (Map.empty :: 'c \<rightharpoonup> crec)" by (simp add: fresh_recs_def)
  from construct_gt_frame[OF c _ f0]
  have p1: "prefix s s1"
    and f1: "\<And>recs' npos'. r1 = Inr (recs', npos') \<Longrightarrow> fresh_recs (length s) recs'"
    by simp_all
  show ?thesis
  proof (cases r1)
    case (Inl e)
    with assms c have "s' = s1" by (simp add: match_pass_def)
    with p1 show ?thesis by simp
  next
    case (Inr v)
    obtain recs0 npos where v: "v = (recs0, npos)" by (cases v)
    obtain s2 class_recs where pd: "pad_recs s1 gt (map fst pred) recs0 = (s2, class_recs)"
      by (cases "pad_recs s1 gt (map fst pred) recs0")
    from f1 Inr v have "fresh_recs (length s) recs0" by simp
    from pad_recs_frame[OF pd p1 this]
    have p2: "prefix s s2" and f2: "fresh_recs (length s) class_recs" by simp_all
    have "s' = s2 \<or> (\<exists>dets nd r. mark_all get_iou_cc class_recs ovthresh dets 0
              (s2, replicate nd 0, replicate nd 0, None) = (s', r))"
      using assms c Inr v pd
      by (auto simp: match_pass_def Let_def split: sum.splits prod.splits)
    then show ?thesis
    proof
      assume "s' = s2"
      with p2 show ?thesis by simp
    next
      assume "\<exists>dets nd r. mark_all get_iou_cc class_recs ovthresh dets 0
              (s2, replicate nd 0, replicate nd 0, None) = (s', r)"
      then obtain dets nd r where "mark_all get_iou_cc class_recs ovthresh dets 0
              (s2, replicate nd 0, replicate nd 0, None) = (s', r)" by blast
      from mark_all_frame[OF this _ f2] p2 show ?thesis by simp
    qed
  qed
qed

lemma eval_det_cls_store:
  "fst (eval_det_cls np_sum argsort get_iou_cc s pred gt ovthresh use_07_metric)
     = fst (match_pass argsort get_iou_cc s pred gt ovthresh)"
  by (simp add: eval_det_cls_def split: prod.splits sum.splits)

lemma eval_det_cls_prefix:
  assumes "eval_det_cls np_sum argsort get_iou_cc s pred gt ovthresh use_07_metric = (s', out)"
  shows "prefix s s'"
proof -
  obtain t r where m: "match_pass argsort get_iou_cc s pred gt ovthresh = (t, r)"
    by (cases "match_pass argsort get_iou_cc s pred gt ovthresh")
  from eval_det_cls_store[of np_sum argsort get_iou_cc s pred gt ovthresh use_07_metric]
    assms m have "s' = t" by simp
  with match_pass_prefix[OF m] show ?thesis by simp
qed

lemma load_prefix: "prefix s s' \<Longrightarrow> a < length s \<Longrightarrow> load s' a = load s a"
  by (auto simp: prefix_def load_def nth_append)


subsection \<open>The result depends on the contents of the inputs only\<close>

lemma load_append: "a < length s \<Longrightarrow> load (s @ zs) a = load s a"
  by (simp add: load_def nth_append)

lemma load_update:
  "load (s[a := v]) b = (if b = a \<and> a < length s then Some v else load s b)"
  by (auto simp: load_def)

lemma recs_ok_alloc:
  assumes "recs_ok s class_recs"
  shows "recs_ok (s @ [x, y]) (class_recs(k \<mapsto> \<lparr>bbox = length s, det = Suc (length s)\<rparr>))"
  using assms unfolding recs_ok_def
  by (auto simp: less_Suc_eq split: if_splits) (metis less_irrefl Suc_lessD)+


lemma view_alloc:
  assumes "recs_ok s class_recs"
  shows "view (s @ [x, y]) (class_recs(k \<mapsto> \<lparr>bbox = length s, det = Suc (length s)\<rparr>))
       = (view s class_recs)(k \<mapsto> (Some x, Some y))"
proof
  fix j
  show "view (s @ [x, y]) (class_recs(k \<mapsto> \<lparr>bbox = length s, det = Suc (length s)\<rparr>)) j
       = ((view s class_recs)(k \<mapsto> (Some x, Some y))) j"
  proof (cases "j = k")
    case True
    then show ?thesis by (simp add: view_def load_def nth_append)
  next
    case False
    show ?thesis
    proof (cases "class_recs j")
      case None
      with False show ?thesis by (simp add: view_def)
    next
      case (Some R)
      with assms have "bbox R < length s" "det R < length s" by (auto simp: recs_ok_def)
      with False Some show ?thesis by (simp add: view_def load_append)
    qed
  qed
qed

lemma recs_ok_update: "recs_ok (s[a := v]) class_recs = recs_ok s class_recs"
  by (simp add: recs_ok_def)

lemma view_update:
  assumes "recs_ok s class_recs" and "class_recs i = Some R"
  shows "view (s[det R := v]) class_recs = (view s class_recs)(i \<mapsto> (load s (bbox R), Some v))"
proof
  fix j
  from assms have in_R: "det R < length s" and sep_R: "det R \<noteq> bbox R"
    by (auto simp: recs_ok_def)
  show "view (s[det R := v]) class_recs j
      = ((view s class_recs)(i \<mapsto> (load s (bbox R), Some v))) j"
  proof (cases "j = i")
    case True
    with assms(2) in_R sep_R show ?thesis by (simp add: view_def load_update)
  next
    case False
    show ?thesis
    proof (cases "class_recs j")
      case None
      with False show ?thesis by (simp add: view_def)
    next
      case (Some R')
      with assms False have "det R \<noteq> bbox R'" "det R \<noteq> det R'"
        unfolding recs_ok_def by blast+
      with False Some show ?thesis by (simp add: view_def load_update)
    qed
  qed
qed

lemma mark_det_via_view:
  assumes "recs_ok s class_recs"
    and "mark_det get_iou_cc class_recs ovthresh d img_id bb (s, loc) = (s', r)"
  shows "(case view s class_recs img_id of
            None \<Rightarrow> r = Inl KeyError \<and> view s' class_recs = view s class_recs
          | Some (B, F) \<Rightarrow>
              (case match_det get_iou_cc ovthresh d bb B F loc of
                 (None, r0) \<Rightarrow> r = r0 \<and> view s' class_recs = view s class_recs
               | (Some flags, r0) \<Rightarrow>
                   r = r0 \<and> view s' class_recs
                     = (view s class_recs)(img_id \<mapsto> (B, Some (FlagList flags)))))"
proof (cases "class_recs img_id")
  case None
  with assms(2) show ?thesis by (simp add: mark_det_def view_def)
next
  case (Some R)
  obtain w r0 where
    m: "match_det get_iou_cc ovthresh d bb (load s (bbox R)) (load s (det R)) loc = (w, r0)"
    by (cases "match_det get_iou_cc ovthresh d bb (load s (bbox R)) (load s (det R)) loc")
  have v: "view s class_recs img_id = Some (load s (bbox R), load s (det R))"
    using Some by (simp add: view_def)
  show ?thesis
  proof (cases w)
    case None
    with assms(2) Some m have "s' = s" "r = r0" by (simp_all add: mark_det_def)
    with v m None show ?thesis by simp
  next
    case (Some flags)
    with assms(2) \<open>class_recs img_id = Some R\<close> m
    have "s' = s[det R := FlagList flags]" "r = r0" by (simp_all add: mark_det_def)
    with v m Some view_update[OF assms(1) \<open>class_recs img_id = Some R\<close>, of "FlagList flags"]
    show ?thesis by simp
  qed
qed

lemma mark_det_sim:
  assumes "recs_ok s1 recs1" and "recs_ok s2 recs2" and "view s1 recs1 = view s2 recs2"
    and "mark_det get_iou_cc recs1 ovthresh d img_id bb (s1, loc) = (s1', r1)"
    and "mark_det get_iou_cc recs2 ovthresh d img_id bb (s2, loc) = (s2', r2)"
  shows "r1 = r2 \<and> view s1' recs1 = view s2' recs2"
  using mark_det_via_view[OF assms(1,4)] mark_det_via_view[OF assms(2,5)] assms(3)
  by (auto split: option.splits prod.splits)

lemma mark_all_sim:
  assumes "recs_ok s1 recs1" and "recs_ok s2 recs2" and "view s1 recs1 = view s2 recs2"
  shows "snd (mark_all get_iou_cc recs1 ovthresh dets d (s1, loc))
       = snd (mark_all get_iou_cc recs2 ovthresh dets d (s2, loc))"
  using assms
proof (induction dets arbitrary: d s1 s2 loc)
  case Nil
  show ?case by (cases loc) auto
next
  case (Cons x dets)
  obtain img_id bb where x: "x = (img_id, bb)" by (cases x)
  obtain t1 r1 where m1: "mark_det get_iou_cc recs1 ovthresh d img_id bb (s1, loc) = (t1, r1)"
    by (cases "mark_det get_iou_cc recs1 ovthresh d img_id bb (s1, loc)")
  obtain t2 r2 where m2: "mark_det get_iou_cc recs2 ovthresh d img_id bb (s2, loc) = (t2, r2)"
    by (cases "mark_det get_iou_cc recs2 ovthresh d img_id bb (s2, loc)")
  from mark_det_sim[OF Cons.prems m1 m2] have r: "r1 = r2" and v: "view t1 recs1 = view t2 recs2"
    by simp_all
  from mark_det_cases[OF m1] Cons.prems(1) have ok1: "recs_ok t1 recs1"
    by (auto simp: recs_ok_update)
  from mark_det_cases[OF m2] Cons.prems(2) have ok2: "recs_ok t2 recs2"
    by (auto simp: recs_ok_update)
  show ?case
  proof (cases r1)
    case (Inl e)
    with r have "r2 = Inl e" by simp
    with m1 m2 Inl show ?thesis by (simp add: x)
  next
    case (Inr loc1)
    with r have "r2 = Inr loc1" by simp
    with m1 m2 Inr Cons.IH[OF ok1 ok2 v, of "Suc d" loc1] show ?thesis by (simp add: x)
  qed
qed

lemma agree_Cons:
  "agree s1 s2 ((k, a) # m)
     \<longleftrightarrow> a < length s1 \<and> a < length s2 \<and> s1 ! a = s2 ! a \<and> agree s1 s2 m"
  by (auto simp: agree_def)

lemma agree_append: "agree s1 s2 m \<Longrightarrow> agree (s1 @ zs1) (s2 @ zs2) m"
  by (auto simp: agree_def nth_append)

lemma agree_prefix:
  assumes "agree s1 s2 m" and "prefix s1 t1" and "prefix s2 t2"
  shows "agree t1 t2 m"
proof -
  from assms(2,3) obtain zs1 zs2 where "t1 = s1 @ zs1" "t2 = s2 @ zs2"
    by (auto simp: prefix_def)
  with agree_append[OF assms(1)] show ?thesis by simp
qed

lemma construct_gt_sim:
  assumes "agree s1 s2 gt" and "recs_ok s1 c1" and "recs_ok s2 c2"
    and "view s1 c1 = view s2 c2"
    and "construct_gt s1 gt c1 npos = (t1, r1)" and "construct_gt s2 gt c2 npos = (t2, r2)"
  shows "(\<exists>e. r1 = Inl e \<and> r2 = Inl e)
       \<or> (\<exists>d1 d2 n. r1 = Inr (d1, n) \<and> r2 = Inr (d2, n)
             \<and> recs_ok t1 d1 \<and> recs_ok t2 d2 \<and> view t1 d1 = view t2 d2)"
  using assms
proof (induction gt arbitrary: s1 s2 c1 c2 npos)
  case Nil
  then show ?case by auto
next
  case (Cons x gt)
  obtain k a where x: "x = (k, a)" by (cases x)
  from Cons.prems(1) have a: "a < length s1" "a < length s2" "s1 ! a = s2 ! a"
    and ag: "agree s1 s2 gt" by (simp_all add: x agree_Cons)
  from a have l: "load s1 a = Some (s1 ! a)" "load s2 a = Some (s1 ! a)"
    by (simp_all add: load_def)
  show ?case
  proof (cases "\<exists>boxes. s1 ! a = BoxList boxes")
    case False
    with Cons.prems(5,6) l have "r1 = Inl TypeError" "r2 = Inl TypeError"
      by (auto simp: x split: obj.splits)
    then show ?thesis by simp
  next
    case True
    then obtain boxes where b: "s1 ! a = BoxList boxes" by blast
    let ?zs = "[BoxList boxes, FlagList (replicate (length boxes) False)]"
    let ?c1 = "c1(k \<mapsto> \<lparr>bbox = length s1, det = Suc (length s1)\<rparr>)"
    let ?c2 = "c2(k \<mapsto> \<lparr>bbox = length s2, det = Suc (length s2)\<rparr>)"
    from Cons.prems(5) l b have
      r1: "construct_gt (s1 @ ?zs) gt ?c1 (npos + length boxes) = (t1, r1)"
      by (simp add: x alloc_def)
    from Cons.prems(6) l b have
      r2: "construct_gt (s2 @ ?zs) gt ?c2 (npos + length boxes) = (t2, r2)"
      by (simp add: x alloc_def)
    have ag': "agree (s1 @ ?zs) (s2 @ ?zs) gt" using ag by (rule agree_append)
    have ok1: "recs_ok (s1 @ ?zs) ?c1" using Cons.prems(2) by (rule recs_ok_alloc)
    have ok2: "recs_ok (s2 @ ?zs) ?c2" using Cons.prems(3) by (rule recs_ok_alloc)
    have v: "view (s1 @ ?zs) ?c1 = view (s2 @ ?zs) ?c2"
      by (simp only: view_alloc[OF Cons.prems(2)] view_alloc[OF Cons.prems(3)] Cons.prems(4))
    from Cons.IH[OF ag' ok1 ok2 v r1 r2] show ?thesis .
  qed
qed

lemma pad_recs_sim:
  assumes "recs_ok s1 c1" and "recs_ok s2 c2" and "view s1 c1 = view s2 c2"
    and "pad_recs s1 gt keys c1 = (t1, d1)" and "pad_recs s2 gt keys c2 = (t2, d2)"
  shows "recs_ok t1 d1 \<and> recs_ok t2 d2 \<and> view t1 d1 = view t2 d2"
  using assms
proof (induction keys arbitrary: s1 s2 c1 c2)
  case Nil
  then show ?case by simp
next
  case (Cons k keys)
  show ?case
  proof (cases "map_of gt k = None")
    case False
    with Cons.prems(4,5) have "pad_recs s1 gt keys c1 = (t1, d1)"
      "pad_recs s2 gt keys c2 = (t2, d2)" by simp_all
    from Cons.IH[OF Cons.prems(1,2,3) this] show ?thesis .
  next
    case True
    let ?zs = "[BoxList [], FlagList []]"
    let ?c1 = "c1(k \<mapsto> \<lparr>bbox = length s1, det = Suc (length s1)\<rparr>)"
    let ?c2 = "c2(k \<mapsto> \<lparr>bbox = length s2, det = Suc (length s2)\<rparr>)"
    from Cons.prems(4) True have r1: "pad_recs (s1 @ ?zs) gt keys ?c1 = (t1, d1)"
      by (simp add: alloc_def)
    from Cons.prems(5) True have r2: "pad_recs (s2 @ ?zs) gt keys ?c2 = (t2, d2)"
      by (simp add: alloc_def)
    have ok1: "recs_ok (s1 @ ?zs) ?c1" using Cons.prems(1) by (rule recs_ok_alloc)
    have ok2: "recs_ok (s2 @ ?zs) ?c2" using Cons.prems(2) by (rule recs_ok_alloc)
    have v: "view (s1 @ ?zs) ?c1 = view (s2 @ ?zs) ?c2"
      by (simp only: view_alloc[OF Cons.prems(1)] view_alloc[OF Cons.prems(2)] Cons.prems(3))
    from Cons.IH[OF ok1 ok2 v r1 r2] show ?thesis .
  qed
qed

lemma construct_dets_sim:
  assumes "agree s1 s2 pred"
  shows "construct_dets s1 pred acc = construct_dets s2 pred acc"
  using assms
proof (induction pred arbitrary: acc)
  case Nil
  show ?case by simp
next
  case (Cons x pred)
  obtain k a where x: "x = (k, a)" by (cases x)
  obtain ids conf BB where acc: "acc = (ids, conf, BB)" by (cases acc)
  from Cons.prems have l: "load s1 a = load s2 a" and ag: "agree s1 s2 pred"
    by (auto simp: x agree_Cons load_def)
  show ?case
    unfolding x acc using l Cons.IH[OF ag]
    by (simp split: option.splits obj.splits)
qed

lemma match_pass_snd_Inl:
  assumes "construct_gt s gt Map.empty 0 = (s1, Inl e)"
  shows "snd (match_pass argsort get_iou_cc s pred gt ovthresh) = Inl e"
  using assms by (simp add: match_pass_def)

lemma match_pass_snd_Inr:
  assumes "construct_gt s gt Map.empty 0 = (s1, Inr (recs0, npos))"
    and "pad_recs s1 gt (map fst pred) recs0 = (s2, class_recs)"
  shows "snd (match_pass argsort get_iou_cc s pred gt ovthresh) =
     (case construct_dets s2 pred ([], [], []) of
        Inl e \<Rightarrow> Inl e
      | Inr (image_ids0, confidence, BB0) \<Rightarrow>
          (case take_idx BB0 (argsort (map uminus confidence)) of
             Inl e \<Rightarrow> Inl e
           | Inr BB \<Rightarrow>
               (case take_idx image_ids0 (argsort (map uminus confidence)) of
                  Inl e \<Rightarrow> Inl e
                | Inr image_ids \<Rightarrow>
                    (case snd (mark_all get_iou_cc class_recs ovthresh (zip image_ids BB) 0
                            (s2, replicate (length image_ids) 0,
                             replicate (length image_ids) 0, None)) of
                       Inl e \<Rightarrow> Inl e
                     | Inr (tp, fp) \<Rightarrow> Inr (image_ids, BB, tp, fp, npos)))))"
  using assms
  by (simp add: match_pass_def Let_def split: sum.splits prod.splits)

lemma recs_ok_empty: "recs_ok s Map.empty"
  by (simp add: recs_ok_def)

lemma fresh_recs_empty: "fresh_recs n Map.empty"
  by (simp add: fresh_recs_def)

lemma match_pass_sim:
  assumes gt: "agree s1 s2 gt" and pred: "agree s1 s2 pred"
  shows "snd (match_pass argsort get_iou_cc s1 pred gt ovthresh)
       = snd (match_pass argsort get_iou_cc s2 pred gt ovthresh)"
proof -
  obtain t1 r1 where c1: "construct_gt s1 gt Map.empty 0 = (t1, r1)"
    by (cases "construct_gt s1 gt Map.empty 0")
  obtain t2 r2 where c2: "construct_gt s2 gt Map.empty 0 = (t2, r2)"
    by (cases "construct_gt s2 gt Map.empty 0")
  have v0: "view s1 (Map.empty :: 'b \<rightharpoonup> crec) = view s2 Map.empty" by (simp add: view_def)
  from construct_gt_sim[OF gt recs_ok_empty recs_ok_empty v0 c1 c2]
  show ?thesis
  proof
    assume "\<exists>e. r1 = Inl e \<and> r2 = Inl e"
    then obtain e where "r1 = Inl e" "r2 = Inl e" by blast
    with c1 c2 show ?thesis by (simp add: match_pass_snd_Inl)
  next
    assume "\<exists>d1 d2 n. r1 = Inr (d1, n) \<and> r2 = Inr (d2, n)
             \<and> recs_ok t1 d1 \<and> recs_ok t2 d2 \<and> view t1 d1 = view t2 d2"
    then obtain d1 d2 n where r: "r1 = Inr (d1, n)" "r2 = Inr (d2, n)"
      and ok: "recs_ok t1 d1" "recs_ok t2 d2" and v: "view t1 d1 = view t2 d2" by blast
    obtain u1 e1 where p1: "pad_recs t1 gt (map fst pred) d1 = (u1, e1)"
      by (cases "pad_recs t1 gt (map fst pred) d1")
    obtain u2 e2 where p2: "pad_recs t2 gt (map fst pred) d2 = (u2, e2)"
      by (cases "pad_recs t2 gt (map fst pred) d2")
    from pad_recs_sim[OF ok v p1 p2]
    have ok': "recs_ok u1 e1" "recs_ok u2 e2" and v': "view u1 e1 = view u2 e2" by simp_all
    from construct_gt_frame[OF c1 _ fresh_recs_empty, of s1] r(1)
    have f1: "prefix s1 t1" "fresh_recs (length s1) d1" by simp_all
    from construct_gt_frame[OF c2 _ fresh_recs_empty, of s2] r(2)
    have f2: "prefix s2 t2" "fresh_recs (length s2) d2" by simp_all
    from pad_recs_frame[OF p1 f1] have g1: "prefix s1 u1" by simp
    from pad_recs_frame[OF p2 f2] have g2: "prefix s2 u2" by simp
    from agree_prefix[OF pred g1 g2] have "agree u1 u2 pred" .
    then have cd: "construct_dets u1 pred ([], [], []) = construct_dets u2 pred ([], [], [])"
      by (rule construct_dets_sim)
    have m: "snd (mark_all get_iou_cc e1 ovthresh dets 0 (u1, loc))
           = snd (mark_all get_iou_cc e2 ovthresh dets 0 (u2, loc))" for dets loc
      using ok' v' by (rule mark_all_sim)
    show ?thesis
      unfolding match_pass_snd_Inr[OF c1[unfolded r(1)] p1]
        match_pass_snd_Inr[OF c2[unfolded r(2)] p2] cd m ..
  qed
qed

lemma eval_det_cls_result:
  "snd (eval_det_cls np_sum argsort get_iou_cc s pred gt ovthresh use_07_metric)
     = (case snd (match_pass argsort get_iou_cc s pred gt ovthresh) of
          Inl e \<Rightarrow> Inl e
        | Inr (image_ids, BB, tp, fp, npos) \<Rightarrow> pr_curves np_sum tp fp npos use_07_metric)"
  by (simp add: eval_det_cls_def split: prod.splits sum.splits)

lemma eval_det_cls_sim:
  assumes "agree s1 s2 gt" and "agree s1 s2 pred"
  shows "snd (eval_det_cls np_sum argsort get_iou_cc s1 pred gt ovthresh use_07_metric)
       = snd (eval_det_cls np_sum argsort get_iou_cc s2 pred gt ovthresh use_07_metric)"
  unfolding eval_det_cls_result match_pass_sim[OF assms] ..


subsection \<open>A run with one detection\<close>

lemma argsort_insertion_one: "argsort_insertion [x] = [0]"
  by (simp add: argsort_insertion_def)

lemma fsub_fmul_one: "fsub 1 0 = 1" "fmul 1 1 = 1" "fadd 0 1 = 1"
  by (simp_all add: fsub_def fmul_def fadd_def fl64_one)

lemma pr_curves_one:
  "pr_curves np_sum_seq [1] [0] (Suc 0) False = Inr ([Num 1], [1], Num 1)"
  by (simp add: pr_curves_def cumsum_def precision_def max_eps voc_ap_def ap_exact_def
      changes_def ne64_def numeral_2_eq_2 Let_def div64_def fdiv_small sum64_def nums_def
      np_sum_seq_def fsub_fmul_one)

lemma one_detection_run:
  "eval_det_cls np_sum_seq argsort_insertion (\<lambda>a b. 1)
     ([BoxList [7::nat], DetList [(7, 9/10)]] @ zs) [(0::nat, 1)] [(0, 0)] (1/4) False
   = ([BoxList [7], DetList [(7, 9/10)]] @ zs @ [BoxList [7], FlagList [True]],
      Inr ([Num 1], [1], Num 1))"
  by (simp add: eval_det_cls_def match_pass_def load_def alloc_def take_idx_def
      argsort_insertion_one mark_det_def match_det_def pr_curves_one nth_append
      list_update_append)


text \<open>
  Claim C10. A call of the per-class evaluator leaves its inputs as they were. Every
  object that exists in the store before the call, in particular every list that the
  prediction map and the ground-truth map refer to, has the same contents after the call:
  the store after the call is the store before the call followed by the objects the call
  allocated. The arrays of ground-truth boxes and the matched flags of \<open>class_recs\<close> are
  among the allocated objects, and the only write of the matching pass goes to the matched
  flags. This holds for every call, whether it returns the curves or fails. The two maps
  themselves are never assigned to in the source and are values of the model.
\<close>

theorem eval_det_cls_frame:
  assumes "eval_det_cls np_sum argsort get_iou_cc s pred gt ovthresh use_07_metric = (s', out)"
  shows "prefix s s' \<and> (\<forall>a<length s. load s' a = load s a)"
  using eval_det_cls_prefix[OF assms] by (simp add: load_prefix)

theorem eval_det_cls_frame_witness:
  "eval_det_cls np_sum_seq argsort_insertion (\<lambda>a b. 1) [BoxList [7::nat], DetList [(7, 9/10)]]
        [(0::nat, 1)] [(0, 0)] (1/4) False
      = ([BoxList [7], DetList [(7, 9/10)], BoxList [7], FlagList [True]], Inr ([Num 1], [1], Num 1))
   \<and> prefix [BoxList [7::nat], DetList [(7, 9/10)]]
        [BoxList [7], DetList [(7, 9/10)], BoxList [7], FlagList [True]]
   \<and> load [BoxList [7::nat], DetList [(7, 9/10)], BoxList [7], FlagList [True]] 0
        = load [BoxList [7::nat], DetList [(7, 9/10)]] 0
   \<and> load [BoxList [7::nat], DetList [(7, 9/10)], BoxList [7], FlagList [True]] 1
        = load [BoxList [7::nat], DetList [(7, 9/10)]] 1"
proof -
  have r: "eval_det_cls np_sum_seq argsort_insertion (\<lambda>a b. 1) [BoxList [7::nat], DetList [(7, 9/10)]]
        [(0::nat, 1)] [(0, 0)] (1/4) False
      = ([BoxList [7], DetList [(7, 9/10)], BoxList [7], FlagList [True]], Inr ([Num 1], [1], Num 1))"
    using one_detection_run[of "[]"] by simp
  from eval_det_cls_frame[OF r] r show ?thesis by simp
qed

text \<open>
  Claim C9. Two calls of the per-class evaluator with the same arguments, one after the
  other, give the same outcome: the same recall array, precision array and AP, or the same
  failure. The second call runs in the store the first one left, in which the records of
  the first call are still present; its own records are built anew, and the inputs are
  unchanged, so nothing of the first call is visible to it. The prediction and ground-truth
  maps refer to objects of the store.
\<close>

theorem eval_det_cls_repeatable:
  assumes "\<forall>a\<in>snd ` (set pred \<union> set gt). a < length s"
    and "eval_det_cls np_sum argsort get_iou_cc s pred gt ovthresh use_07_metric = (s', out)"
    and "eval_det_cls np_sum argsort get_iou_cc s' pred gt ovthresh use_07_metric = (s'', out')"
  shows "out' = out"
proof -
  from eval_det_cls_prefix[OF assms(2)] obtain zs where s': "s' = s @ zs"
    by (auto simp: prefix_def)
  have ag: "agree s' s m" if "set m \<subseteq> set pred \<union> set gt" for m
    unfolding agree_def
  proof
    fix a assume "a \<in> snd ` set m"
    with that have "a \<in> snd ` (set pred \<union> set gt)" by blast
    with assms(1) have "a < length s" by blast
    then show "a < length s' \<and> a < length s \<and> s' ! a = s ! a"
      by (simp add: s' nth_append)
  qed
  have "agree s' s gt" "agree s' s pred" by (rule ag, simp)+
  from eval_det_cls_sim[OF this, of np_sum argsort get_iou_cc ovthresh use_07_metric] assms(2,3)
  show ?thesis by simp
qed


theorem eval_det_cls_repeatable_witness:
  "(1::nat) < length [BoxList [7::nat], DetList [(7, 9/10)]]
   \<and> (0::nat) < length [BoxList [7::nat], DetList [(7, 9/10)]]
   \<and> eval_det_cls np_sum_seq argsort_insertion (\<lambda>a b. 1) [BoxList [7::nat], DetList [(7, 9/10)]]
        [(0::nat, 1)] [(0, 0)] (1/4) False
      = ([BoxList [7], DetList [(7, 9/10)], BoxList [7], FlagList [True]], Inr ([Num 1], [1], Num 1))
   \<and> eval_det_cls np_sum_seq argsort_insertion (\<lambda>a b. 1)
        [BoxList [7::nat], DetList [(7, 9/10)], BoxList [7], FlagList [True]]
        [(0::nat, 1)] [(0, 0)] (1/4) False
      = ([BoxList [7], DetList [(7, 9/10)], BoxList [7], FlagList [True],
          BoxList [7], FlagList [True]], Inr ([Num 1], [1], Num 1))"
proof -
  let ?s = "[BoxList [7::nat], DetList [(7, 9/10)]]"
  have v: "\<forall>a\<in>snd ` (set [(0::nat, 1::nat)] \<union> set [(0, 0)]). a < length ?s" by simp
  have r1: "eval_det_cls np_sum_seq argsort_insertion (\<lambda>a b. 1) ?s [(0::nat, 1)] [(0, 0)] (1/4) False
      = ([BoxList [7], DetList [(7, 9/10)], BoxList [7], FlagList [True]], Inr ([Num 1], [1], Num 1))"
    using one_detection_run[of "[]"] by simp
  obtain s'' out' where r2: "eval_det_cls np_sum_seq argsort_insertion (\<lambda>a b. 1)
        [BoxList [7::nat], DetList [(7, 9/10)], BoxList [7], FlagList [True]]
        [(0::nat, 1)] [(0, 0)] (1/4) False = (s'', out')"
    by (cases "eval_det_cls np_sum_seq argsort_insertion (\<lambda>a b. 1)
        [BoxList [7::nat], DetList [(7, 9/10)], BoxList [7], FlagList [True]]
        [(0::nat, 1)] [(0, 0)] (1/4) False")
  from eval_det_cls_repeatable[OF v r1 r2] have o: "out' = Inr ([Num 1], [1], Num 1)" .
  from one_detection_run[of "[BoxList [7], FlagList [True]]"] r2
  have "s'' = [BoxList [7], DetList [(7, 9/10)], BoxList [7], FlagList [True],
          BoxList [7], FlagList [True]]" by simp
  with r1 r2 o show ?thesis by simp
qed


section \<open>The driver\<close>

subsection \<open>The evaluator returns on inputs of the documented shape\<close>
















subsection \<open>The loop over the classes\<close>






subsection \<open>Classes without predictions\<close>


lemma voc_ap_07_binary64_empty: "voc_ap_07_binary64 [] [] = Inr 0"
  unfolding voc_ap_07_binary64_def thresholds64
  by (simp add: np_sum_mask_def ge_mask_def fdiv_11 fadd_def fl64_zero)

lemma pr_curves_Nil:
  assumes "np_sum_ok np_sum"
  shows "pr_curves np_sum [] [] npos use_07_metric = Inr ([], [], Num 0)"
  using ap_exact_empty[OF assms] voc_ap_07_binary64_empty
  by (cases use_07_metric) (simp_all add: pr_curves_def cumsum_def precision_def voc_ap_def)


subsection \<open>A class with detections and no ground-truth box\<close>

text \<open>
  With a detection and no ground-truth box, \<open>npos\<close> is \<open>0\<close> and the recall \<open>0 / 0\<close> is
  \<open>nan\<close>. The evaluator does not fail: it returns the \<open>nan\<close> recall, precision \<open>0\<close>, and
  an AP that is \<open>0\<close> in the 11-point mode and \<open>nan\<close> in the exact-integral mode. The
  driver stores this result and goes on to the next class.
\<close>

lemma fdiv_zero_one: "fdiv 0 1 = 0"
  by (simp add: fdiv_def fl64_zero)

lemma no_ground_truth_run:
  "eval_det_cls np_sum argsort_insertion (\<lambda>a b. 1)
       ([BoxList [], DetList [(7::nat, 9/10)]] @ zs) [(0::nat, 1)] [(0, 0)] (1/4) False
     = ([BoxList [], DetList [(7, 9/10)]] @ zs @ [BoxList [], FlagList []],
        Inr ([NaN], [0], NaN))"
  "eval_det_cls np_sum argsort_insertion (\<lambda>a b. 1)
       ([BoxList [], DetList [(7::nat, 9/10)]] @ zs) [(0::nat, 1)] [(0, 0)] (1/4) True
     = ([BoxList [], DetList [(7, 9/10)]] @ zs @ [BoxList [], FlagList []],
        Inr ([NaN], [0], Num 0))"
proof -
  have m: "match_pass argsort_insertion (\<lambda>a b. 1)
       ([BoxList [], DetList [(7::nat, 9/10)]] @ zs) [(0::nat, 1)] [(0, 0)] (1/4)
     = ([BoxList [], DetList [(7, 9/10)]] @ zs @ [BoxList [], FlagList []],
        Inr ([0], [7], [0], [1], 0))"
    by (simp add: match_pass_def load_def alloc_def take_idx_def argsort_insertion_one
        mark_det_def match_det_def nth_append)
  have c: "cumsum [0] = [0]" "cumsum [1] = [1]" by (simp_all add: cumsum_def)
  have p: "precision [0] [1] = [0]" by (simp add: precision_def max_eps fdiv_zero_one)
  have r: "map (\<lambda>t. div64 t (real (0::nat))) [0] = [NaN]" by (simp add: div64_def)
  have e: "ap_exact np_sum [NaN] [0] = Inr NaN"
    by (simp add: ap_exact_def changes_def ne64_def sum64_def numeral_2_eq_2 Let_def)
  have s: "voc_ap_07_binary64 [NaN] [0] = Inr 0"
    unfolding voc_ap_07_binary64_def thresholds64
    by (simp add: np_sum_mask_def ge_mask_def fdiv_11 fadd_def fl64_zero)
  have "pr_curves np_sum [0] [1] 0 False = Inr ([NaN], [0], NaN)"
    unfolding pr_curves_def Let_def c p r by (simp add: voc_ap_def e)
  then show "eval_det_cls np_sum argsort_insertion (\<lambda>a b. 1)
       ([BoxList [], DetList [(7::nat, 9/10)]] @ zs) [(0::nat, 1)] [(0, 0)] (1/4) False
     = ([BoxList [], DetList [(7, 9/10)]] @ zs @ [BoxList [], FlagList []],
        Inr ([NaN], [0], NaN))"
    unfolding eval_det_cls_def m by simp
  have "pr_curves np_sum [0] [1] 0 True = Inr ([NaN], [0], Num 0)"
    unfolding pr_curves_def Let_def c p r by (simp add: voc_ap_def s)
  then show "eval_det_cls np_sum argsort_insertion (\<lambda>a b. 1)
       ([BoxList [], DetList [(7::nat, 9/10)]] @ zs) [(0::nat, 1)] [(0, 0)] (1/4) True
     = ([BoxList [], DetList [(7, 9/10)]] @ zs @ [BoxList [], FlagList []],
        Inr ([NaN], [0], Num 0))"
    unfolding eval_det_cls_def m by simp
qed

lemma no_ground_truth_then_next_class:
  "eval_det np_sum_seq argsort_insertion (\<lambda>a b. 1)
       [BoxList [], DetList [(7::nat, 9/10)]]
       [(''sofa'', [(0::nat, 1)]), (''chair'', [])]
       [(''sofa'', [(0, 0)]), (''chair'', [(0, 0)])] (1/4) False
     = ([BoxList [], DetList [(7, 9/10)], BoxList [], FlagList [], BoxList [], FlagList []],
        Inr ([''sofa'' \<mapsto> [NaN], ''chair'' \<mapsto> []], [''sofa'' \<mapsto> [0], ''chair'' \<mapsto> []],
             [''sofa'' \<mapsto> NaN, ''chair'' \<mapsto> Num 0]))"
proof -
  have a: "eval_det_cls np_sum_seq argsort_insertion (\<lambda>a b. 1)
       [BoxList [], DetList [(7::nat, 9/10)]] [(0::nat, Suc 0)] [(0, 0)] (1/4) False
     = ([BoxList [], DetList [(7, 9/10)], BoxList [], FlagList []], Inr ([NaN], [0], NaN))"
    using no_ground_truth_run(1)[of np_sum_seq "[]"] by simp
  have b: "eval_det_cls np_sum_seq argsort_insertion (\<lambda>a b. 1)
       [BoxList [], DetList [(7::nat, 9/10)], BoxList [], FlagList []] [] [(0::nat, 0)] (1/4) False
     = ([BoxList [], DetList [(7, 9/10)], BoxList [], FlagList [], BoxList [], FlagList []],
        Inr ([], [], Num 0))"
    by (simp add: eval_det_cls_def match_pass_def load_def alloc_def argsort_insertion_def
        take_idx_def pr_curves_Nil[OF np_sum_seq_ok])
  show ?thesis by (simp add: eval_det_def a b)
qed


subsection \<open>The driver and its classes\<close>




end
